theory Spec2Isabelle
  imports Main
begin

section \<open>Data model of \<open>jax3d/visu3d/array_dataclass.py\<close>\<close>

text \<open>
  The numeric engines (\<open>np\<close>, \<open>jnp\<close>, \<open>tnp\<close>) are external. An engine is identified
  by a tag, and one of its arrays is a tag, an element type, a shape and the elements in
  row-major order. A Python list handed to an array field is represented by the array
  \<open>np.asarray\<close> builds from it.
\<close>

datatype xnp = NP | JNP | TNP

type_synonym shape = "nat list"

datatype np_dtype = DType string

datatype 'a ndarray =
  NDArray (nd_xnp: xnp) (nd_dtype: np_dtype) (nd_shape: shape) (nd_data: "'a list")

text \<open>
  \<open>_ArrayFieldMetadata\<close>: the inner shape and the dtype, which is a numpy dtype or the
  name of a \<open>DataclassArray\<close> subclass (a nested field).
\<close>

datatype fdtype = Prim np_dtype | Nested string

record field_meta =
  inner_shape :: shape
  dtype :: fdtype

definition is_dataclass :: "field_meta \<Rightarrow> bool" where
  "is_dataclass m = (case dtype m of Nested _ \<Rightarrow> True | Prim _ \<Rightarrow> False)"

text \<open>
  A dataclass field: its name, the \<open>v3d_field\<close> metadata when it was declared with
  \<open>array_field\<close>, whether it has a default (\<open>None\<close>), and whether the generated
  \<open>__init__\<close> takes it (\<open>init=True\<close>, the default of \<open>dataclasses.field\<close>). A class: its
  name, whether it is a frozen dataclass, and its fields in declaration order.
\<close>

record dc_field =
  f_name :: string
  f_meta :: "field_meta option"
  f_has_default :: bool
  f_init :: bool

record dc_class =
  cls_name :: string
  cls_frozen :: bool
  cls_fields :: "dc_field list"

text \<open>
  Python values that reach the code: \<open>None\<close>, a bare \<open>object()\<close>, an array, and an instance
  of a \<open>DataclassArray\<close> subclass. An instance holds its class, its attributes in field
  order, and what \<open>__post_init__\<close> caches: \<open>_shape\<close>, \<open>_xnp\<close> and, for \<open>_array_fields\<close>,
  the name and the metadata of each active field.
\<close>

datatype 'a pyval =
    PNone
  | PObject
  | PArray "'a ndarray"
  | PDc "'a dc"
and 'a dc =
  Dc (dc_cls: dc_class) (dc_attrs: "(string \<times> 'a pyval) list")
     (dc_shape: "shape option") (dc_xnp: xnp) (dc_active: "(string \<times> field_meta) list")

text \<open>Exceptions: the Python class and what the message reports.\<close>

datatype msg =
    NotFrozenDataclass
  | NoArrayField string
  | ConflictingNumpyTypes "(xnp \<times> string list) list"
  | ConflictingBatchShapes "(shape \<times> string list) list"
  | ExpectedLastDims shape string shape
  | FieldTypeMismatch string
  | IterationOver0d
  | LenOfUnsized string "shape option"
  | AmbiguousTruth string
  | SingleEllipsis
  | TooManyIndices shape nat
  | ConflictingTypes "string list list"
  | PleaseOpenIssue
  | AmbiguousArrayTruth
  | NotInTuple
  | NoneHasNoLen
  | NoneNotSubscriptable
  | NotIterable
  | ListIndexOutOfRange
  | NoAttribute string
  | DuplicateKeyword string
  | UnexpectedKeyword string
  | MissingArgument string
  | StackShapeMismatch
  | NotAnArray
  | InitFalseField string
  | NotASizeFunction string

datatype error =
    ValueError msg
  | TypeError msg
  | IndexError msg
  | NotImplementedError msg
  | AttributeError msg

section \<open>Shape, size, length and truth value\<close>

text \<open>Python truthiness of \<open>self.shape\<close>: \<open>None\<close> and \<open>()\<close> are falsy.\<close>

definition shape_truthy :: "shape option \<Rightarrow> bool" where
  "shape_truthy s = (case s of None \<Rightarrow> False | Some [] \<Rightarrow> False | Some (_ # _) \<Rightarrow> True)"

text \<open>
  The module \<open>np_utils\<close> that \<open>array_dataclass.py\<close> imports: the names \<open>np_utils.py\<close> binds.
  Looking up another name on the module raises \<open>AttributeError\<close>.
\<close>

definition np_utils :: "string list" where
  "np_utils = [''annotations'', ''enp'', ''FloatArray'', ''normalize'', ''append_row'']"

definition module_getattr :: "string list \<Rightarrow> string \<Rightarrow> error + string" where
  "module_getattr module n =
     (if n \<in> set module then Inr n else Inl (AttributeError (NoAttribute n)))"

text \<open>
  \<open>DataclassArray.size\<close>: \<open>return np_utils.size_of(self._shape)\<close>. The attribute is looked
  up before the call. No name of the module is a function of a shape: calling one of them
  here is a \<open>TypeError\<close>.
\<close>

definition dc_size :: "'a dc \<Rightarrow> error + nat" where
  "dc_size r =
     (case module_getattr np_utils ''size_of'' of
        Inl e \<Rightarrow> Inl e
      | Inr f \<Rightarrow> Inl (TypeError (NotASizeFunction f)))"

text \<open>\<open>DataclassArray.__len__\<close>\<close>

definition dc_len :: "'a dc \<Rightarrow> error + nat" where
  "dc_len r =
     (if \<not> shape_truthy (dc_shape r)
      then Inl (TypeError (LenOfUnsized (cls_name (dc_cls r)) (dc_shape r)))
      else (case dc_shape r of
              Some (n # _) \<Rightarrow> Inr n
            | _ \<Rightarrow> Inl (TypeError (LenOfUnsized (cls_name (dc_cls r)) (dc_shape r)))))"

text \<open>\<open>DataclassArray.__bool__\<close>: \<open>if self.shape and not len(self): raise ValueError\<close>.\<close>

definition dc_bool :: "'a dc \<Rightarrow> error + bool" where
  "dc_bool r =
     (if shape_truthy (dc_shape r)
      then (case dc_len r of
              Inl e \<Rightarrow> Inl e
            | Inr n \<Rightarrow>
                if n = 0 then Inl (ValueError (AmbiguousTruth (cls_name (dc_cls r))))
                else Inr True)
      else Inr True)"

section \<open>Index normalization\<close>

text \<open>
  An index item: \<open>...\<close>, \<open>np.newaxis\<close> (which is \<open>None\<close>), an integer, a slice, or an
  integer array (the \<open>Any\<close> of \<open>_IndiceItem\<close>).
\<close>

datatype idx =
    Ellipsis
  | NewAxis
  | IntIdx int
  | SliceIdx "int option" "int option" "int option"
  | ArrayIdx "int list"

datatype indices_arg = Single idx | Tuple "idx list"

text \<open>\<open>np.index_exp[indices]\<close>: a tuple is kept, anything else is wrapped in a tuple.\<close>

definition index_exp :: "indices_arg \<Rightarrow> idx list" where
  "index_exp a = (case a of Single i \<Rightarrow> [i] | Tuple is \<Rightarrow> is)"

text \<open>\<open>_count_not_none\<close> and \<open>_count_ellipsis\<close> compare by identity (\<open>is\<close>).\<close>

definition count_not_none :: "idx list \<Rightarrow> nat" where
  "count_not_none indices = length [k \<leftarrow> indices. k \<noteq> NewAxis \<and> k \<noteq> Ellipsis]"

definition count_ellipsis :: "idx list \<Rightarrow> nat" where
  "count_ellipsis elems = length [elem \<leftarrow> elems. elem = Ellipsis]"

text \<open>
  \<open>tuple.index(Ellipsis)\<close> compares with \<open>==\<close> from the left: the item itself when it is
  the same object, otherwise the truth value of \<open>item == Ellipsis\<close>. For an array that is
  an elementwise comparison, whose truth value raises when the array has more than one
  element (the comment of \<open>_count_ellipsis\<close>: \<open>np.array() == Ellipsis\<close> fails).
\<close>

fun eq_ellipsis :: "idx \<Rightarrow> error + bool" where
  "eq_ellipsis Ellipsis = Inr True"
| "eq_ellipsis (ArrayIdx xs) =
     (if length xs > 1 then Inl (ValueError AmbiguousArrayTruth) else Inr False)"
| "eq_ellipsis _ = Inr False"

fun tuple_index :: "idx list \<Rightarrow> error + nat" where
  "tuple_index [] = Inl (ValueError NotInTuple)"
| "tuple_index (x # xs) =
     (case eq_ellipsis x of
        Inl e \<Rightarrow> Inl e
      | Inr True \<Rightarrow> Inr 0
      | Inr False \<Rightarrow> (case tuple_index xs of Inl e \<Rightarrow> Inl e | Inr i \<Rightarrow> Inr (Suc i)))"

abbreviation full_slice :: idx where
  "full_slice \<equiv> SliceIdx None None None"

text \<open>\<open>_to_absolute_indices\<close>; \<open>shape\<close> is \<open>self.shape\<close>, which may be \<open>None\<close>.\<close>

definition to_absolute_indices :: "idx list \<Rightarrow> shape option \<Rightarrow> error + idx list" where
  "to_absolute_indices indices shp =
     (let ellipsis_count = count_ellipsis indices in
      if ellipsis_count > 1 then Inl (IndexError SingleEllipsis)
      else
        let valid_count = count_not_none indices in
        (case shp of
           None \<Rightarrow> Inl (TypeError NoneHasNoLen)
         | Some s \<Rightarrow>
             if valid_count > length s then Inl (IndexError (TooManyIndices s valid_count))
             else if ellipsis_count = 0 then Inr indices
             else
               (case tuple_index indices of
                  Inl e \<Rightarrow> Inl e
                | Inr ellipsis_index \<Rightarrow>
                    let start_elems = take ellipsis_index indices;
                        end_elems = drop (ellipsis_index + 1) indices;
                        ellipsis_replacement = replicate (length s - valid_count) full_slice
                    in Inr (start_elems @ ellipsis_replacement @ end_elems))))"

section \<open>The engine operations the code calls\<close>

text \<open>
  What the model leaves to the engine: the conversion of one element to another dtype,
  \<open>xnp.stack\<close> on anything but arrays of one shape and dtype, and \<open>array[indices]\<close>.
\<close>

record 'a engine =
  cast :: "np_dtype \<Rightarrow> np_dtype \<Rightarrow> 'a \<Rightarrow> 'a"
  stack_other :: "xnp \<Rightarrow> 'a pyval list \<Rightarrow> error + 'a pyval"
  array_getitem :: "idx list \<Rightarrow> 'a ndarray \<Rightarrow> error + 'a pyval"

text \<open>\<open>xnp.asarray(value, dtype=dtype)\<close>: the same shape; the elements are converted
  when the dtype differs.\<close>

definition asarray :: "'a engine \<Rightarrow> xnp \<Rightarrow> np_dtype \<Rightarrow> 'a ndarray \<Rightarrow> 'a ndarray" where
  "asarray B x d a =
     (if nd_dtype a = d then NDArray x d (nd_shape a) (nd_data a)
      else NDArray x d (nd_shape a) (map (cast B (nd_dtype a) d) (nd_data a)))"

fun array_of :: "'a pyval \<Rightarrow> 'a ndarray option" where
  "array_of (PArray a) = Some a"
| "array_of _ = None"

text \<open>\<open>xnp.stack(values, axis=0)\<close>\<close>

definition nd_stack :: "'a engine \<Rightarrow> xnp \<Rightarrow> 'a pyval list \<Rightarrow> error + 'a pyval" where
  "nd_stack B x vals =
     (case those (map array_of vals) of
        Some (a # as) \<Rightarrow>
          if \<forall>b \<in> set as. nd_shape b = nd_shape a \<and> nd_dtype b = nd_dtype a
          then Inr (PArray (NDArray x (nd_dtype a) (length (a # as) # nd_shape a)
                      (concat (map nd_data (a # as)))))
          else stack_other B x vals
      | _ \<Rightarrow> stack_other B x vals)"

text \<open>
  Iterating over an array: \<open>iter\<close> of a 0-d array raises; otherwise one sub-array per
  index of the first axis.
\<close>

definition nd_row :: "'a ndarray \<Rightarrow> nat \<Rightarrow> 'a ndarray" where
  "nd_row a i =
     (let k = prod_list (tl (nd_shape a))
      in NDArray (nd_xnp a) (nd_dtype a) (tl (nd_shape a)) (take k (drop (i * k) (nd_data a))))"

definition nd_iter :: "'a ndarray \<Rightarrow> error + 'a ndarray list" where
  "nd_iter a =
     (case nd_shape a of
        [] \<Rightarrow> Inl (TypeError IterationOver0d)
      | n # _ \<Rightarrow> Inr (map (nd_row a) [0..<n]))"

section \<open>Python helpers\<close>

text \<open>Running computations in order, stopping at the first exception.\<close>

fun sequence :: "('e + 'x) list \<Rightarrow> 'e + 'x list" where
  "sequence [] = Inr []"
| "sequence (Inl e # _) = Inl e"
| "sequence (Inr x # rs) = (case sequence rs of Inl e \<Rightarrow> Inl e | Inr xs \<Rightarrow> Inr (x # xs))"

text \<open>A \<open>dict\<close> as an association list in insertion order; a later value of a key
  replaces the earlier one.\<close>

fun dict_set :: "'k \<Rightarrow> 'v \<Rightarrow> ('k \<times> 'v) list \<Rightarrow> ('k \<times> 'v) list" where
  "dict_set k v [] = [(k, v)]"
| "dict_set k v ((k', v') # d) = (if k = k' then (k', v) # d else (k', v') # dict_set k v d)"

definition py_dict :: "('k \<times> 'v) list \<Rightarrow> ('k \<times> 'v) list" where
  "py_dict kvs = foldl (\<lambda>d (k, v). dict_set k v d) [] kvs"

text \<open>
  Modelled from the spec: \<open>py_utils.groupby\<close>, a module of this repository that is not
  among the sources. The spec shows its result in the batch-shape conflict,
  \<open>{(3,): ['position'], (4,): ['scale']}\<close>: a dict from each key to the list of the values
  of the items with that key, in the order of the items.
\<close>

fun groupby_add :: "'k \<Rightarrow> 'v \<Rightarrow> ('k \<times> 'v list) list \<Rightarrow> ('k \<times> 'v list) list" where
  "groupby_add k v [] = [(k, [v])]"
| "groupby_add k v ((k', vs) # g) =
     (if k = k' then (k', vs @ [v]) # g else (k', vs) # groupby_add k v g)"

definition groupby :: "('x \<Rightarrow> 'k) \<Rightarrow> ('x \<Rightarrow> 'v) \<Rightarrow> 'x list \<Rightarrow> ('k \<times> 'v list) list" where
  "groupby key val xs = foldl (\<lambda>g x. groupby_add (key x) (val x) g) [] xs"

text \<open>\<open>getattr(value, name)\<close>\<close>

definition dc_getattr :: "'a dc \<Rightarrow> string \<Rightarrow> error + 'a pyval" where
  "dc_getattr d n =
     (case map_of (dc_attrs d) n of
        None \<Rightarrow> Inl (AttributeError (NoAttribute n))
      | Some v \<Rightarrow> Inr v)"

fun py_getattr :: "'a pyval \<Rightarrow> string \<Rightarrow> error + 'a pyval" where
  "py_getattr (PDc d) n = dc_getattr d n"
| "py_getattr _ n = Inl (AttributeError (NoAttribute n))"

section \<open>Bound fields: \<open>_ArrayField\<close>\<close>

record 'a array_field =
  af_name :: string
  af_meta :: field_meta
  af_value :: "'a pyval"
  af_xnp :: "xnp option"

text \<open>\<open>_ArrayField.is_value_missing\<close>; \<open>value._array_fields\<close> is the cached list.\<close>

definition is_value_missing :: "'a pyval \<Rightarrow> bool" where
  "is_value_missing v =
     (case v of
        PNone \<Rightarrow> True
      | PObject \<Rightarrow> True
      | PDc d \<Rightarrow> dc_active d = []
      | PArray _ \<Rightarrow> False)"

text \<open>\<open>value.shape\<close>\<close>

fun value_shape :: "'a pyval \<Rightarrow> error + shape option" where
  "value_shape (PArray a) = Inr (Some (nd_shape a))"
| "value_shape (PDc d) = Inr (dc_shape d)"
| "value_shape _ = Inl (AttributeError (NoAttribute ''shape''))"

text \<open>\<open>_ArrayField.host_shape\<close>; \<open>shape[:-k]\<close> is empty when \<open>k\<close> exceeds the rank.\<close>

definition host_shape :: "field_meta \<Rightarrow> 'a pyval \<Rightarrow> error + shape" where
  "host_shape m v =
     (case value_shape v of
        Inl e \<Rightarrow> Inl e
      | Inr None \<Rightarrow>
          Inl (TypeError (if inner_shape m = [] then NotIterable else NoneNotSubscriptable))
      | Inr (Some s) \<Rightarrow>
          Inr (if inner_shape m = [] then s
               else take (length s - length (inner_shape m)) s))"

text \<open>\<open>_ArrayField._init_array\<close>: the engine of the value and the normalized value.\<close>

definition init_array ::
  "'a engine \<Rightarrow> string \<Rightarrow> field_meta \<Rightarrow> np_dtype \<Rightarrow> 'a pyval \<Rightarrow> error + 'a array_field" where
  "init_array B name m d v =
     (case v of
        PDc _ \<Rightarrow> Inl (TypeError (FieldTypeMismatch name))
      | PArray a \<Rightarrow>
          Inr \<lparr>af_name = name, af_meta = m,
               af_value = PArray (asarray B (nd_xnp a) d a), af_xnp = Some (nd_xnp a)\<rparr>
      | _ \<Rightarrow> Inl (TypeError NotAnArray))"

text \<open>\<open>_ArrayField._init_dataclass\<close>\<close>

definition init_dataclass ::
  "string \<Rightarrow> field_meta \<Rightarrow> string \<Rightarrow> 'a pyval \<Rightarrow> error + 'a array_field" where
  "init_dataclass name m c v =
     (case v of
        PDc d \<Rightarrow>
          if cls_name (dc_cls d) = c
          then Inr \<lparr>af_name = name, af_meta = m, af_value = v, af_xnp = Some (dc_xnp d)\<rparr>
          else Inl (TypeError (FieldTypeMismatch name))
      | _ \<Rightarrow> Inl (TypeError (FieldTypeMismatch name)))"

text \<open>\<open>_ArrayField.__post_init__\<close>\<close>

definition bind_field ::
  "'a engine \<Rightarrow> string \<Rightarrow> field_meta \<Rightarrow> 'a pyval \<Rightarrow> error + 'a array_field" where
  "bind_field B name m v =
     (if is_value_missing v
      then Inr \<lparr>af_name = name, af_meta = m, af_value = v, af_xnp = None\<rparr>
      else
        (case (case dtype m of
                 Nested c \<Rightarrow> init_dataclass name m c v
               | Prim d \<Rightarrow> init_array B name m d v) of
           Inl e \<Rightarrow> Inl e
         | Inr f \<Rightarrow>
             (case host_shape m (af_value f) of
                Inl e \<Rightarrow> Inl e
              | Inr h \<Rightarrow>
                  (case value_shape (af_value f) of
                     Inl e \<Rightarrow> Inl e
                   | Inr vs \<Rightarrow>
                       if Some (h @ inner_shape m) \<noteq> vs
                       then Inl (ValueError
                              (ExpectedLastDims (inner_shape m) name (case vs of Some s \<Rightarrow> s | None \<Rightarrow> [])))
                       else Inr f))))"

section \<open>Construction: \<open>__init__\<close> and \<open>DataclassArray.__post_init__\<close>\<close>

text \<open>\<open>_all_array_fields\<close>: every field declared with \<open>array_field\<close> is bound, in order.\<close>

definition all_array_fields ::
  "'a engine \<Rightarrow> dc_class \<Rightarrow> (string \<times> 'a pyval) list \<Rightarrow> error + 'a array_field list" where
  "all_array_fields B cls attrs =
     sequence
       (concat (map (\<lambda>f. case f_meta f of
                      None \<Rightarrow> []
                    | Some m \<Rightarrow>
                        [case map_of attrs (f_name f) of
                           None \<Rightarrow> Inl (AttributeError (NoAttribute (f_name f)))
                         | Some v \<Rightarrow> bind_field B (f_name f) m v])
                (cls_fields cls)))"

text \<open>The normalized values are written back on the instance.\<close>

definition write_back ::
  "'a array_field list \<Rightarrow> (string \<times> 'a pyval) list \<Rightarrow> (string \<times> 'a pyval) list" where
  "write_back fs attrs =
     map (\<lambda>(n, v). (n, case find (\<lambda>f. af_name f = n) fs of
                          None \<Rightarrow> v
                        | Some f \<Rightarrow> af_value f)) attrs"

definition post_init ::
  "'a engine \<Rightarrow> dc_class \<Rightarrow> (string \<times> 'a pyval) list \<Rightarrow> error + 'a dc" where
  "post_init B cls attrs =
     (if \<not> cls_frozen cls then Inl (ValueError NotFrozenDataclass)
      else
        (case all_array_fields B cls attrs of
           Inl e \<Rightarrow> Inl e
         | Inr all_fields \<Rightarrow>
             if all_fields = [] then Inl (ValueError (NoArrayField (cls_name cls)))
             else
               let attrs' = write_back all_fields attrs;
                   array_fields = filter (\<lambda>f. \<not> is_value_missing (af_value f)) all_fields;
                   active = map (\<lambda>f. (af_name f, af_meta f)) array_fields
               in
               (case sequence (map (\<lambda>f. case af_xnp f of
                                          None \<Rightarrow> Inl (AttributeError (NoAttribute ''xnp''))
                                        | Some x \<Rightarrow> Inr (x, af_name f)) array_fields) of
                  Inl e \<Rightarrow> Inl e
                | Inr xs \<Rightarrow>
                    let xnps = groupby fst snd xs in
                    if length xnps > 1 then Inl (ValueError (ConflictingNumpyTypes xnps))
                    else
                      (case sequence (map (\<lambda>f. case host_shape (af_meta f) (af_value f) of
                                                 Inl e \<Rightarrow> Inl e
                                               | Inr h \<Rightarrow> Inr (h, af_name f)) array_fields) of
                         Inl e \<Rightarrow> Inl e
                       | Inr hs \<Rightarrow>
                           let shapes = groupby fst snd hs in
                           if length shapes > 1
                           then Inl (ValueError (ConflictingBatchShapes shapes))
                           else
                             (case (xnps, shapes) of
                                ((x, _) # _, (s, _) # _) \<Rightarrow> Inr (Dc cls attrs' (Some s) x active)
                              | _ \<Rightarrow> Inr (Dc cls attrs' None NP active))))))"

text \<open>
  The generated \<open>__init__\<close> called with keyword arguments. Its parameters are the fields
  with \<open>init=True\<close>: another keyword, and a missing argument without default, are
  \<open>TypeError\<close>s; a parameter left out takes its default, \<open>None\<close>. A field with
  \<open>init=False\<close> is set to its default when it has one, and not set otherwise. Then
  \<open>__post_init__\<close>.
\<close>

definition init_attrs :: "dc_class \<Rightarrow> (string \<times> 'a pyval) list \<Rightarrow> (string \<times> 'a pyval) list" where
  "init_attrs cls kwargs =
     concat (map (\<lambda>f. if f_init f
                      then [(f_name f, case map_of kwargs (f_name f) of Some v \<Rightarrow> v | None \<Rightarrow> PNone)]
                      else if f_has_default f then [(f_name f, PNone)] else [])
               (cls_fields cls))"

definition dc_init ::
  "'a engine \<Rightarrow> dc_class \<Rightarrow> (string \<times> 'a pyval) list \<Rightarrow> error + 'a dc" where
  "dc_init B cls kwargs =
     (case find (\<lambda>k. k \<notin> set (map f_name (filter f_init (cls_fields cls)))) (map fst kwargs) of
        Some k \<Rightarrow> Inl (TypeError (UnexpectedKeyword k))
      | None \<Rightarrow>
          (case find (\<lambda>f. f_init f \<and> \<not> f_has_default f \<and> f_name f \<notin> set (map fst kwargs))
                  (cls_fields cls) of
             Some f \<Rightarrow> Inl (TypeError (MissingArgument (f_name f)))
           | None \<Rightarrow> post_init B cls (init_attrs cls kwargs)))"

text \<open>
  \<open>self.replace(**changes)\<close>, the \<open>replace\<close> of \<open>etils.edc\<close>, taken as
  \<open>dataclasses.replace\<close>: a change of a field with
  \<open>init=False\<close> is a \<open>ValueError\<close>, and such a field is left to \<open>__init__\<close>; every other
  field that is not changed is read from the instance; then the class is called.
\<close>

definition replace :: "'a engine \<Rightarrow> 'a dc \<Rightarrow> (string \<times> 'a pyval) list \<Rightarrow> error + 'a dc" where
  "replace B d changes =
     (case find (\<lambda>f. \<not> f_init f \<and> f_name f \<in> set (map fst changes)) (cls_fields (dc_cls d)) of
        Some f \<Rightarrow> Inl (ValueError (InitFalseField (f_name f)))
      | None \<Rightarrow>
          (case sequence (map (\<lambda>f. case dc_getattr d (f_name f) of
                                     Inl e \<Rightarrow> Inl e
                                   | Inr v \<Rightarrow> Inr (f_name f, v))
                            (filter (\<lambda>f. f_init f \<and> f_name f \<notin> set (map fst changes))
                               (cls_fields (dc_cls d)))) of
             Inl e \<Rightarrow> Inl e
           | Inr rest \<Rightarrow> dc_init B (dc_cls d) (changes @ rest)))"

section \<open>Indexing, iteration, stacking\<close>

text \<open>
  \<open>DataclassArray.__getitem__\<close>. Both functions given to \<open>_map_field\<close> are
  \<open>f.value[indices]\<close>: an array is indexed by the engine, a nested instance by this method.
\<close>

function dc_getitem :: "'a engine \<Rightarrow> 'a dc \<Rightarrow> indices_arg \<Rightarrow> error + 'a dc" where
  "dc_getitem B d arg =
     (case to_absolute_indices (index_exp arg) (dc_shape d) of
        Inl e \<Rightarrow> Inl e
      | Inr indices \<Rightarrow>
          (case sequence
                  (map (\<lambda>(n, m). case dc_getattr d n of
                          Inl e \<Rightarrow> Inl e
                        | Inr PNone \<Rightarrow> Inl (TypeError NoneNotSubscriptable)
                        | Inr PObject \<Rightarrow> Inl (TypeError NoneNotSubscriptable)
                        | Inr (PArray a) \<Rightarrow> array_getitem B indices a
                        | Inr (PDc d') \<Rightarrow>
                            (case dc_getitem B d' (Tuple indices) of
                               Inl e \<Rightarrow> Inl e
                             | Inr r \<Rightarrow> Inr (PDc r)))
                     (dc_active d)) of
             Inl e \<Rightarrow> Inl e
           | Inr new_values \<Rightarrow> replace B d (py_dict (zip (map fst (dc_active d)) new_values))))"
  by pat_completeness auto
termination
proof (relation "measure (\<lambda>(B, d, arg). size d)", goal_cases)
  case 1
  show ?case by simp
next
  case (2 B d arg indices nm n m v d')
  have sub: "map_of attrs n = Some (PDc d') \<Longrightarrow>
          size d' < size_list (size_prod (\<lambda>_. 0) size) attrs"
    for attrs :: "(string \<times> 'a pyval) list"
    by (induction attrs) (auto split: if_splits)
  from 2 have "map_of (dc_attrs d) n = Some (PDc d')"
    by (auto simp: dc_getattr_def split: option.splits)
  from sub[OF this] show ?case
    by (cases d) simp
qed

text \<open>
  A Python iterator is the list of what successive \<open>next\<close> calls give; an exception ends
  it. \<open>zip(*columns)\<close> asks each column in order for its next item and stops at the first
  exhausted column.
\<close>

fun zip_heads :: "('e + 'x) list list \<Rightarrow> ('e + 'x list) option" where
  "zip_heads [] = Some (Inr [])"
| "zip_heads ([] # cs) = None"
| "zip_heads ((Inl e # c) # cs) = Some (Inl e)"
| "zip_heads ((Inr x # c) # cs) =
     (case zip_heads cs of
        None \<Rightarrow> None
      | Some (Inl e) \<Rightarrow> Some (Inl e)
      | Some (Inr xs) \<Rightarrow> Some (Inr (x # xs)))"

function pyzip :: "('e + 'x) list list \<Rightarrow> ('e + 'x list) list" where
  "pyzip cols =
     (if cols = [] then []
      else (case zip_heads cols of
              None \<Rightarrow> []
            | Some (Inl e) \<Rightarrow> [Inl e]
            | Some (Inr row) \<Rightarrow> Inr row # pyzip (map tl cols)))"
  by pat_completeness auto
termination
proof (relation "measure (\<lambda>cols. length (hd cols))", goal_cases)
  case 1
  show ?case by simp
next
  case (2 cols x2 b)
  then show ?case
    by (cases cols rule: zip_heads.cases) (auto split: option.splits sum.splits)
qed

text \<open>
  \<open>DataclassArray.__iter__\<close>, a generator: what precedes the first \<open>yield\<close> runs at the first
  \<open>next\<close>. Iterating over a nested instance is this method again.
\<close>

function dc_iter :: "'a engine \<Rightarrow> 'a dc \<Rightarrow> (error + 'a dc) list" where
  "dc_iter B d =
     (if \<not> shape_truthy (dc_shape d) then [Inl (TypeError IterationOver0d)]
      else
        (case sequence (map (\<lambda>(n, m). dc_getattr d n) (dc_active d)) of
           Inl e \<Rightarrow> [Inl e]
         | Inr field_values \<Rightarrow>
             (case sequence
                     (map (\<lambda>(n, m). case dc_getattr d n of
                             Inl e \<Rightarrow> Inl e
                           | Inr PNone \<Rightarrow> Inl (TypeError NotIterable)
                           | Inr PObject \<Rightarrow> Inl (TypeError NotIterable)
                           | Inr (PArray a) \<Rightarrow>
                               (case nd_iter a of
                                  Inl e \<Rightarrow> Inl e
                                | Inr rows \<Rightarrow> Inr (map (\<lambda>r. Inr (PArray r)) rows))
                           | Inr (PDc d') \<Rightarrow>
                               Inr (map (\<lambda>r. case r of Inl e \<Rightarrow> Inl e | Inr x \<Rightarrow> Inr (PDc x))
                                      (dc_iter B d')))
                        (dc_active d)) of
                Inl e \<Rightarrow> [Inl e]
              | Inr columns \<Rightarrow>
                  map (\<lambda>row. case row of
                         Inl e \<Rightarrow> Inl e
                       | Inr vals \<Rightarrow> replace B d (py_dict (zip (map fst (dc_active d)) vals)))
                    (pyzip columns))))"
  by pat_completeness auto
termination
proof (relation "measure (\<lambda>(B, d). size d)", goal_cases)
  case 1
  show ?case by simp
next
  case (2 B d field_values nm n m v d')
  have sub: "map_of attrs n = Some (PDc d') \<Longrightarrow>
          size d' < size_list (size_prod (\<lambda>_. 0) size) attrs"
    for attrs :: "(string \<times> 'a pyval) list"
    by (induction attrs) (auto split: if_splits)
  from 2 have "map_of (dc_attrs d) n = Some (PDc d')"
    by (auto simp: dc_getattr_def split: option.splits)
  from sub[OF this] show ?case
    by (cases d) simp
qed

text \<open>
  \<open>type(x)\<close> and \<open>type(x).__name__\<close>. The keys of a dict are Python values: the types, and
  the \<open>False\<close> that \<open>stack\<close> looks up.
\<close>

datatype pytype = TNoneType | TObject | TNdarray xnp | TClass dc_class

datatype pykey = KeyType pytype | KeyBool bool

fun type_of :: "'a pyval \<Rightarrow> pytype" where
  "type_of PNone = TNoneType"
| "type_of PObject = TObject"
| "type_of (PArray a) = TNdarray (nd_xnp a)"
| "type_of (PDc d) = TClass (dc_cls d)"

fun type_name :: "pytype \<Rightarrow> string" where
  "type_name TNoneType = ''NoneType''"
| "type_name TObject = ''object''"
| "type_name (TNdarray _) = ''ndarray''"
| "type_name (TClass c) = cls_name c"

text \<open>
  \<open>stack\<close>. Both functions given to \<open>_map_field\<close> start with
  \<open>[getattr(arr, f.name) for arr in arrays]\<close>; the nested call has the default axis 0.
\<close>

function stack :: "'a engine \<Rightarrow> 'a pyval list \<Rightarrow> int \<Rightarrow> error + 'a dc" where
  "stack B arrays axis =
     (case arrays of
        [] \<Rightarrow> Inl (IndexError ListIndexOutOfRange)
      | first_arr # _ \<Rightarrow>
          let types = groupby (\<lambda>x. KeyType (type_of x)) (\<lambda>x. type_name (type_of x)) arrays in
          if KeyBool False \<in> set (map fst types)
          then Inl (TypeError (ConflictingTypes (map snd types)))
          else
            (case first_arr of
               PDc fd \<Rightarrow>
                 if axis \<noteq> 0 then Inl (NotImplementedError PleaseOpenIssue)
                 else
                   (case sequence
                           (map (\<lambda>(n, m).
                                   case sequence (map (\<lambda>arr. py_getattr arr n) arrays) of
                                     Inl e \<Rightarrow> Inl e
                                   | Inr vals \<Rightarrow>
                                       if is_dataclass m
                                       then (case stack B vals 0 of
                                               Inl e \<Rightarrow> Inl e
                                             | Inr r \<Rightarrow> Inr (PDc r))
                                       else nd_stack B (dc_xnp fd) vals)
                              (dc_active fd)) of
                      Inl e \<Rightarrow> Inl e
                    | Inr new_values \<Rightarrow>
                        replace B fd (py_dict (zip (map fst (dc_active fd)) new_values)))
             | _ \<Rightarrow> Inl (AttributeError (NoAttribute ''xnp''))))"
  by pat_completeness auto
termination
proof (relation "measure (\<lambda>(B, arrays, axis). case arrays of [] \<Rightarrow> 0 | a # _ \<Rightarrow> size a)", goal_cases)
  case 1
  show ?case by simp
next
  case (2 B arrays axis first_arr rest types fd nm n m vals)
  have sub: "map_of attrs n = Some v \<Longrightarrow>
          size v < size_list (size_prod (\<lambda>_. 0) size) attrs"
    for attrs :: "(string \<times> 'a pyval) list" and v
    by (induction attrs) (auto split: if_splits)
  from 2 obtain v vs where v: "vals = v # vs" "map_of (dc_attrs fd) n = Some v"
    by (auto simp: dc_getattr_def split: option.splits sum.splits)
  from sub[OF v(2)] 2 v(1) show ?case
    by (cases fd) simp
qed

section \<open>The tree protocol\<close>

text \<open>\<open>_TreeMetadata\<close>, \<open>tree_flatten\<close> and \<open>tree_unflatten\<close>. A keyword given by both dicts of
  \<open>cls(**a, **b)\<close> is a \<open>TypeError\<close>.\<close>

record 'a tree_metadata =
  array_field_names :: "string list"
  non_array_field_kwargs :: "(string \<times> 'a pyval) list"

definition tree_flatten :: "'a dc \<Rightarrow> error + ('a pyval list \<times> 'a tree_metadata)" where
  "tree_flatten d =
     (let names = map f_name (filter (\<lambda>f. f_meta f \<noteq> None) (cls_fields (dc_cls d))) in
      case sequence (map (dc_getattr d) names) of
        Inl e \<Rightarrow> Inl e
      | Inr array_field_values \<Rightarrow>
          (case sequence (map (\<lambda>f. case dc_getattr d (f_name f) of
                                 Inl e \<Rightarrow> Inl e
                               | Inr v \<Rightarrow> Inr (f_name f, v))
                            (filter (\<lambda>f. f_name f \<notin> set names) (cls_fields (dc_cls d)))) of
             Inl e \<Rightarrow> Inl e
           | Inr kw \<Rightarrow>
               Inr (array_field_values,
                    \<lparr>array_field_names = names, non_array_field_kwargs = kw\<rparr>)))"

definition tree_unflatten ::
  "'a engine \<Rightarrow> dc_class \<Rightarrow> 'a tree_metadata \<Rightarrow> 'a pyval list \<Rightarrow> error + 'a dc" where
  "tree_unflatten B cls metadata array_field_values =
     (let array_field_kwargs = py_dict (zip (array_field_names metadata) array_field_values) in
      case find (\<lambda>k. k \<in> set (map fst array_field_kwargs))
             (map fst (non_array_field_kwargs metadata)) of
        Some k \<Rightarrow> Inl (TypeError (DuplicateKeyword k))
      | None \<Rightarrow> dc_init B cls (array_field_kwargs @ non_array_field_kwargs metadata))"

section \<open>Notions used to state the properties\<close>

text \<open>The fields declared with \<open>array_field\<close>, with their metadata.\<close>

definition array_decls :: "dc_class \<Rightarrow> (string \<times> field_meta) list" where
  "array_decls cls =
     concat (map (\<lambda>f. case f_meta f of None \<Rightarrow> [] | Some m \<Rightarrow> [(f_name f, m)]) (cls_fields cls))"

definition normalized :: "field_meta \<Rightarrow> shape \<Rightarrow> xnp \<Rightarrow> 'a pyval \<Rightarrow> bool" where
  "normalized m h x v =
     (case v of
        PArray a \<Rightarrow>
          (case dtype m of
             Prim d \<Rightarrow> nd_dtype a = d \<and> nd_xnp a = x \<and> nd_shape a = h @ inner_shape m
           | Nested _ \<Rightarrow> False)
      | PDc r \<Rightarrow>
          (case dtype m of
             Nested c \<Rightarrow>
               cls_name (dc_cls r) = c \<and> dc_active r \<noteq> [] \<and> dc_xnp r = x
               \<and> dc_shape r = Some (h @ inner_shape m)
           | Prim _ \<Rightarrow> False)
      | _ \<Rightarrow> False)"

text \<open>A bound field is active when its value is not missing.\<close>

abbreviation af_active :: "'a array_field \<Rightarrow> bool" where
  "af_active f \<equiv> \<not> is_value_missing (af_value f)"

text \<open>
  The checks \<open>__post_init__\<close> runs on the active fields, and what it caches: the common
  engine and batch shape (\<open>np\<close> and \<open>None\<close> without active field).
\<close>

definition check_fields :: "'a array_field list \<Rightarrow> error + (shape option \<times> xnp)" where
  "check_fields array_fields =
     (case sequence (map (\<lambda>f. case af_xnp f of
                                None \<Rightarrow> Inl (AttributeError (NoAttribute ''xnp''))
                              | Some x \<Rightarrow> Inr (x, af_name f)) array_fields) of
        Inl e \<Rightarrow> Inl e
      | Inr xs \<Rightarrow>
          if length (groupby fst snd xs) > 1
          then Inl (ValueError (ConflictingNumpyTypes (groupby fst snd xs)))
          else
            (case sequence (map (\<lambda>f. case host_shape (af_meta f) (af_value f) of
                                       Inl e \<Rightarrow> Inl e
                                     | Inr h \<Rightarrow> Inr (h, af_name f)) array_fields) of
               Inl e \<Rightarrow> Inl e
             | Inr hs \<Rightarrow>
                 if length (groupby fst snd hs) > 1
                 then Inl (ValueError (ConflictingBatchShapes (groupby fst snd hs)))
                 else
                   (case (groupby fst snd xs, groupby fst snd hs) of
                      ((x, _) # _, (s, _) # _) \<Rightarrow> Inr (Some s, x)
                    | _ \<Rightarrow> Inr (None, NP))))"

text \<open>A value with \<open>None\<close> in the place of a bare \<open>object()\<close>.\<close>

definition object_as_none :: "'a pyval \<Rightarrow> 'a pyval" where
  "object_as_none v = (if v = PObject then PNone else v)"

text \<open>The value of an attribute of an instance (\<open>None\<close> for a name it does not have).\<close>

definition attr_of :: "'a dc \<Rightarrow> string \<Rightarrow> 'a pyval" where
  "attr_of r n = (case map_of (dc_attrs r) n of Some v \<Rightarrow> v | None \<Rightarrow> PNone)"

text \<open>The names of the array fields of a class, and its other fields.\<close>

definition array_names :: "dc_class \<Rightarrow> string list" where
  "array_names cls = map f_name (filter (\<lambda>f. f_meta f \<noteq> None) (cls_fields cls))"

definition other_fields :: "dc_class \<Rightarrow> dc_field list" where
  "other_fields cls = filter (\<lambda>f. f_name f \<notin> set (array_names cls)) (cls_fields cls)"


text \<open>\<open>list(record)\<close>\<close>

definition dc_list :: "'a engine \<Rightarrow> 'a dc \<Rightarrow> error + 'a dc list" where
  "dc_list B r = sequence (dc_iter B r)"

text \<open>
  An instance as the constructor leaves it: its class has distinct field names, its
  attributes are those fields, validating them again gives the instance itself, a field
  that \<open>__init__\<close> does not take holds its default, and the value of each active field is
  an array with as many elements as its shape says, or again such an instance.
\<close>

function valid :: "'a engine \<Rightarrow> 'a dc \<Rightarrow> bool" where
  "valid B r \<longleftrightarrow>
     distinct (map f_name (cls_fields (dc_cls r)))
     \<and> map fst (dc_attrs r) = map f_name (cls_fields (dc_cls r))
     \<and> post_init B (dc_cls r) (dc_attrs r) = Inr r
     \<and> (\<forall>f \<in> set (cls_fields (dc_cls r)).
           \<not> f_init f \<longrightarrow> f_has_default f \<and> attr_of r (f_name f) = PNone)
     \<and> (\<forall>(n, m) \<in> set (dc_active r).
           case dc_getattr r n of
             Inr (PArray a) \<Rightarrow> length (nd_data a) = prod_list (nd_shape a)
           | Inr (PDc d) \<Rightarrow> valid B d
           | _ \<Rightarrow> True)"
  by pat_completeness auto
termination
proof (relation "measure (\<lambda>(B, r). size r)", goal_cases)
  case 1
  show ?case by simp
next
  case (2 B r nm n m v d)
  have sub: "map_of attrs n = Some (PDc d) \<Longrightarrow>
          size d < size_list (size_prod (\<lambda>_. 0) size) attrs"
    for attrs :: "(string \<times> 'a pyval) list"
    by (induction attrs) (auto split: if_splits)
  from 2 have "map_of (dc_attrs r) n = Some (PDc d)"
    by (auto simp: dc_getattr_def split: option.splits)
  from sub[OF this] show ?case
    by (cases r) simp
qed

text \<open>A value the constructor may be given for an array field.\<close>

definition wf_value :: "'a engine \<Rightarrow> 'a pyval \<Rightarrow> bool" where
  "wf_value B v =
     (case v of
        PArray a \<Rightarrow> length (nd_data a) = prod_list (nd_shape a)
      | PDc d \<Rightarrow> valid B d
      | _ \<Rightarrow> True)"

text \<open>\<open>stack(list(record))\<close>\<close>

definition stack_iter :: "'a engine \<Rightarrow> 'a dc \<Rightarrow> error + 'a dc" where
  "stack_iter B r =
     (case dc_list B r of
        Inl e \<Rightarrow> Inl e
      | Inr rs \<Rightarrow> stack B (map PDc rs) 0)"
section \<open>Example instances\<close>

text \<open>The class of the docstring, an engine whose conversions keep the elements, and
  instances of that class.\<close>

definition float32 :: np_dtype where
  "float32 = DType ''float32''"

definition ex_engine :: "int engine" where
  "ex_engine =
     \<lparr>cast = (\<lambda>_ _ x. x),
      stack_other = (\<lambda>_ _. Inl (ValueError StackShapeMismatch)),
      array_getitem = (\<lambda>_ a. Inr (PArray a))\<rparr>"

definition pos_meta :: field_meta where
  "pos_meta = \<lparr>inner_shape = [2], dtype = Prim float32\<rparr>"

definition scale_meta :: field_meta where
  "scale_meta = \<lparr>inner_shape = [], dtype = Prim float32\<rparr>"

definition Square :: dc_class where
  "Square =
     \<lparr>cls_name = ''Square'', cls_frozen = True,
      cls_fields =
        [\<lparr>f_name = ''pos'', f_meta = Some pos_meta, f_has_default = True, f_init = True\<rparr>,
         \<lparr>f_name = ''scale'', f_meta = Some scale_meta, f_has_default = True, f_init = True\<rparr>]\<rparr>"

definition pos3 :: "int ndarray" where
  "pos3 = NDArray NP float32 [3, 2] [1, 2, 3, 4, 5, 6]"

definition scale3 :: "int ndarray" where
  "scale3 = NDArray NP float32 [3] [7, 8, 9]"

definition scale4 :: "int ndarray" where
  "scale4 = NDArray NP float32 [4] [7, 8, 9, 10]"

definition scale4_jnp :: "int ndarray" where
  "scale4_jnp = NDArray JNP float32 [4] [7, 8, 9, 10]"

definition square3 :: "int dc" where
  "square3 =
     Dc Square [(''pos'', PArray pos3), (''scale'', PArray scale3)] (Some [3]) NP
        [(''pos'', pos_meta), (''scale'', scale_meta)]"

text \<open>A second class with the fields of \<open>Square\<close>, and unbatched instances of both.\<close>

definition Circle :: dc_class where
  "Circle =
     \<lparr>cls_name = ''Circle'', cls_frozen = True,
      cls_fields =
        [\<lparr>f_name = ''pos'', f_meta = Some pos_meta, f_has_default = True, f_init = True\<rparr>,
         \<lparr>f_name = ''scale'', f_meta = Some scale_meta, f_has_default = True, f_init = True\<rparr>]\<rparr>"

definition square_a :: "int dc" where
  "square_a =
     Dc Square [(''pos'', PArray (NDArray NP float32 [2] [1, 2])),
                (''scale'', PArray (NDArray NP float32 [] [7]))] (Some []) NP
        [(''pos'', pos_meta), (''scale'', scale_meta)]"

definition circle_b :: "int dc" where
  "circle_b =
     Dc Circle [(''pos'', PArray (NDArray NP float32 [2] [3, 4])),
                (''scale'', PArray (NDArray NP float32 [] [8]))] (Some []) NP
        [(''pos'', pos_meta), (''scale'', scale_meta)]"


text \<open>An instance of batch shape \<open>(0,)\<close>, and a class with a nested \<open>Square\<close>.\<close>

definition square0 :: "int dc" where
  "square0 =
     Dc Square [(''pos'', PArray (NDArray NP float32 [0, 2] [])),
                (''scale'', PArray (NDArray NP float32 [0] []))] (Some [0]) NP
        [(''pos'', pos_meta), (''scale'', scale_meta)]"

definition square_meta :: field_meta where
  "square_meta = \<lparr>inner_shape = [], dtype = Nested ''Square''\<rparr>"

definition Scene :: dc_class where
  "Scene =
     \<lparr>cls_name = ''Scene'', cls_frozen = True,
      cls_fields =
        [\<lparr>f_name = ''square'', f_meta = Some square_meta, f_has_default = True, f_init = True\<rparr>,
         \<lparr>f_name = ''weight'', f_meta = Some scale_meta, f_has_default = True, f_init = True\<rparr>,
         \<lparr>f_name = ''mask'', f_meta = Some scale_meta, f_has_default = True, f_init = True\<rparr>]\<rparr>"

definition scene3 :: "int dc" where
  "scene3 =
     Dc Scene [(''square'', PDc square3), (''weight'', PArray scale3), (''mask'', PNone)]
        (Some [3]) NP
        [(''square'', square_meta), (''weight'', scale_meta)]"

text \<open>A class with a field that \<open>__init__\<close> does not take,
  \<open>tag: str = dataclasses.field(default=None, init=False)\<close>, and an instance.\<close>

definition Tagged :: dc_class where
  "Tagged =
     \<lparr>cls_name = ''Tagged'', cls_frozen = True,
      cls_fields =
        [\<lparr>f_name = ''pos'', f_meta = Some pos_meta, f_has_default = True, f_init = True\<rparr>,
         \<lparr>f_name = ''tag'', f_meta = None, f_has_default = True, f_init = False\<rparr>]\<rparr>"

definition tagged3 :: "int dc" where
  "tagged3 =
     Dc Tagged [(''pos'', PArray pos3), (''tag'', PNone)] (Some [3]) NP [(''pos'', pos_meta)]"
section \<open>Properties: size and truth value\<close>

text \<open>
  C4. \<open>record.size\<close> must be the product of the dimensions of the batch shape. The
  property calls \<open>np_utils.size_of\<close>, a name the module \<open>np_utils\<close> does not bind: for
  every record, reading \<open>size\<close> raises \<open>AttributeError\<close> and returns no number.
\<close>

theorem dc_size_raises:
  "dc_size r = Inl (AttributeError (NoAttribute ''size_of''))"
  by (simp add: dc_size_def module_getattr_def np_utils_def)

text \<open>
  C9. The truth value of a record raises \<open>ValueError\<close> exactly when its batch shape is
  non-empty and starts with 0; for every other record it is \<open>True\<close>.
\<close>

theorem dc_bool_raises_iff:
  "((\<exists>e. dc_bool r = Inl e) \<longleftrightarrow> (\<exists>s. dc_shape r = Some (0 # s)))
   \<and> ((\<exists>s. dc_shape r = Some (0 # s)) \<longrightarrow>
         dc_bool r = Inl (ValueError (AmbiguousTruth (cls_name (dc_cls r)))))
   \<and> (\<not> (\<exists>s. dc_shape r = Some (0 # s)) \<longrightarrow> dc_bool r = Inr True)"
  by (auto simp: dc_bool_def dc_len_def shape_truthy_def split: option.splits list.splits)

theorem dc_bool_raises_iff_witness:
  "dc_bool square3 = Inr True
   \<and> dc_bool (Dc Square [] (Some [0, 2]) NP [] :: int dc) = Inl (ValueError (AmbiguousTruth ''Square''))
   \<and> dc_bool (Dc Square [] None NP [] :: int dc) = Inr True"
proof -
  have a: "\<not> (\<exists>s. dc_shape square3 = Some (0 # s))"
    by (simp add: square3_def)
  have b: "\<exists>s. dc_shape (Dc Square [] (Some [0, 2]) NP [] :: int dc) = Some (0 # s)"
    by simp
  have c: "\<not> (\<exists>s. dc_shape (Dc Square [] None NP [] :: int dc) = Some (0 # s))"
    by simp
  from dc_bool_raises_iff[of square3] a dc_bool_raises_iff[of "Dc Square [] (Some [0, 2]) NP [] :: int dc"] b
    dc_bool_raises_iff[of "Dc Square [] None NP [] :: int dc"] c
  show ?thesis by (simp add: Square_def)
qed

section \<open>Properties: index normalization\<close>

lemma tuple_index_prefix:
  "Ellipsis \<notin> set pre \<Longrightarrow> \<forall>xs. ArrayIdx xs \<in> set pre \<longrightarrow> length xs \<le> 1 \<Longrightarrow>
   tuple_index (pre @ Ellipsis # post) = Inr (length pre)"
proof (induction pre)
  case Nil
  then show ?case by simp
next
  case (Cons a pre)
  then show ?case by (cases a) auto
qed

lemma count_ellipsis_append:
  "count_ellipsis (xs @ ys) = count_ellipsis xs + count_ellipsis ys"
  by (simp add: count_ellipsis_def)

lemma count_ellipsis_zero_iff: "count_ellipsis xs = 0 \<longleftrightarrow> Ellipsis \<notin> set xs"
  by (auto simp: count_ellipsis_def filter_empty_conv)

lemma to_absolute_indices_no_ellipsis:
  "count_ellipsis indices = 0 \<Longrightarrow> count_not_none indices \<le> length s \<Longrightarrow>
   to_absolute_indices indices (Some s) = Inr indices"
  by (simp add: to_absolute_indices_def)

lemma to_absolute_indices_one_ellipsis:
  assumes "Ellipsis \<notin> set pre" "Ellipsis \<notin> set post"
    and "\<forall>xs. ArrayIdx xs \<in> set pre \<longrightarrow> length xs \<le> 1"
    and "count_not_none (pre @ Ellipsis # post) \<le> length s"
  shows "to_absolute_indices (pre @ Ellipsis # post) (Some s) =
     Inr (pre @ replicate (length s - count_not_none (pre @ Ellipsis # post)) full_slice @ post)"
proof -
  have c: "count_ellipsis (pre @ Ellipsis # post) = 1"
    using assms(1,2) by (simp add: count_ellipsis_append count_ellipsis_zero_iff[symmetric]) (simp add: count_ellipsis_def)
  show ?thesis
    using assms(4) tuple_index_prefix[OF assms(1,3)]
    by (simp add: to_absolute_indices_def c Let_def)
qed

lemma one_ellipsis_split:
  "count_ellipsis indices = 1 \<Longrightarrow>
   \<exists>pre post. indices = pre @ Ellipsis # post \<and> Ellipsis \<notin> set pre \<and> Ellipsis \<notin> set post"
proof (induction indices)
  case Nil
  then show ?case by (simp add: count_ellipsis_def)
next
  case (Cons a indices)
  show ?case
  proof (cases "a = Ellipsis")
    case True
    with Cons.prems have "count_ellipsis indices = 0" by (simp add: count_ellipsis_def)
    then have "Ellipsis \<notin> set indices" by (simp add: count_ellipsis_zero_iff)
    with True show ?thesis by (intro exI[of _ "[]"] exI[of _ indices]) simp
  next
    case False
    with Cons.prems have "count_ellipsis indices = 1" by (simp add: count_ellipsis_def)
    from Cons.IH[OF this] obtain pre post where
      "indices = pre @ Ellipsis # post" "Ellipsis \<notin> set pre" "Ellipsis \<notin> set post" by blast
    with False show ?thesis by (intro exI[of _ "a # pre"] exI[of _ post]) simp
  qed
qed

text \<open>
  C5. Normalization replaces the one \<open>...\<close> of a tuple by full slices. The code looks the
  marker up with \<open>tuple.index\<close>, which compares with \<open>==\<close>: on the batch shape \<open>(2, 3)\<close> the
  index \<open>(array([0, 1]), ...)\<close> has one marker and one consuming item, and normalization
  raises \<open>ValueError\<close> instead of returning \<open>(array([0, 1]), slice(None))\<close>.
\<close>

theorem to_absolute_indices_array_before_ellipsis:
  "count_ellipsis [ArrayIdx [0, 1], Ellipsis] = 1
   \<and> count_not_none [ArrayIdx [0, 1], Ellipsis] \<le> length [2, 3 :: nat]
   \<and> to_absolute_indices [ArrayIdx [0, 1], Ellipsis] (Some [2, 3])
       = Inl (ValueError AmbiguousArrayTruth)"
  by (simp add: to_absolute_indices_def count_ellipsis_def count_not_none_def)

lemma getitem_error:
  "to_absolute_indices (index_exp arg) (dc_shape d) = Inl e \<Longrightarrow> dc_getitem B d arg = Inl e"
  by (subst dc_getitem.simps) simp

text \<open>
  C6, as amended. Indexing a record raises \<open>IndexError\<close> when the index has two or more
  \<open>...\<close>; when it has at most one and more consuming items than the rank of the batch
  shape, it raises the \<open>IndexError\<close> that reports the batch shape and the number of
  consuming items.
\<close>

theorem getitem_index_errors:
  "(2 \<le> count_ellipsis (index_exp arg) \<longrightarrow>
      dc_getitem B r arg = Inl (IndexError SingleEllipsis))
   \<and> (count_ellipsis (index_exp arg) \<le> 1 \<and> dc_shape r = Some s
        \<and> length s < count_not_none (index_exp arg) \<longrightarrow>
      dc_getitem B r arg = Inl (IndexError (TooManyIndices s (count_not_none (index_exp arg)))))"
  by (auto intro!: getitem_error simp: to_absolute_indices_def)

theorem getitem_index_errors_witness:
  "dc_getitem ex_engine square3 (Tuple [Ellipsis, IntIdx 0, Ellipsis]) = Inl (IndexError SingleEllipsis)
   \<and> dc_getitem ex_engine square3 (Tuple [IntIdx 0, IntIdx 1]) = Inl (IndexError (TooManyIndices [3] 2))"
proof -
  have a: "2 \<le> count_ellipsis (index_exp (Tuple [Ellipsis, IntIdx 0, Ellipsis]))"
    by (simp add: count_ellipsis_def index_exp_def)
  have b: "count_ellipsis (index_exp (Tuple [IntIdx 0, IntIdx 1])) \<le> 1 \<and> dc_shape square3 = Some [3]
        \<and> length [3::nat] < count_not_none (index_exp (Tuple [IntIdx 0, IntIdx 1]))"
    by (simp add: count_ellipsis_def count_not_none_def index_exp_def square3_def)
  have c: "count_not_none (index_exp (Tuple [IntIdx 0, IntIdx 1])) = 2"
    by (simp add: count_not_none_def index_exp_def)
  from getitem_index_errors[of "Tuple [Ellipsis, IntIdx 0, Ellipsis]" ex_engine square3 "[3]"] a
    getitem_index_errors[of "Tuple [IntIdx 0, IntIdx 1]" ex_engine square3 "[3]"] b c
  show ?thesis by simp
qed

text \<open>
  C6 as stated fails: with two \<open>...\<close> and too many consuming items, the error is the one
  about the ellipsis, which reports neither the batch shape nor the rank.
\<close>

theorem getitem_two_ellipsis_too_many_counterexample:
  "dc_shape square3 = Some [3]
   \<and> length [3::nat] < count_not_none (index_exp (Tuple [Ellipsis, Ellipsis, IntIdx 0, IntIdx 0]))
   \<and> dc_getitem ex_engine square3 (Tuple [Ellipsis, Ellipsis, IntIdx 0, IntIdx 0])
       = Inl (IndexError SingleEllipsis)
   \<and> dc_getitem ex_engine square3 (Tuple [Ellipsis, Ellipsis, IntIdx 0, IntIdx 0])
       \<noteq> Inl (IndexError (TooManyIndices [3] 2))"
  by (simp add: getitem_error to_absolute_indices_def count_ellipsis_def count_not_none_def
        index_exp_def square3_def)


section \<open>Lemmas on the helpers and on construction\<close>

lemma sequence_map_Inr [simp]: "sequence (map Inr ys) = Inr ys"
  by (induction ys) auto

lemma sequence_Inr_D: "sequence rs = Inr ys \<Longrightarrow> rs = map Inr ys"
proof (induction rs arbitrary: ys)
  case Nil
  then show ?case by auto
next
  case (Cons r rs)
  show ?case
  proof (cases r)
    case (Inl e)
    with Cons.prems show ?thesis by auto
  next
    case (Inr x)
    with Cons.prems obtain zs where zs: "sequence rs = Inr zs" "ys = x # zs"
      by (auto split: sum.splits)
    from Cons.IH[OF zs(1)] zs(2) Inr show ?thesis by simp
  qed
qed

lemma sequence_Inr_iff: "sequence rs = Inr ys \<longleftrightarrow> rs = map Inr ys"
  using sequence_Inr_D by auto

lemma sequence_map_cong_Inr:
  "(\<And>x. x \<in> set xs \<Longrightarrow> f x = Inr (g x)) \<Longrightarrow> sequence (map f xs) = Inr (map g xs)"
  by (simp add: sequence_Inr_iff)

lemma sequence_map_Inr_D:
  "sequence (map f xs) = Inr ys \<Longrightarrow> length ys = length xs \<and> (\<forall>i < length xs. f (xs ! i) = Inr (ys ! i))"
  by (auto simp: sequence_Inr_iff list_eq_iff_nth_eq)

lemma sequence_map_Inr_elem:
  "sequence (map f xs) = Inr ys \<Longrightarrow> x \<in> set xs \<Longrightarrow> \<exists>y \<in> set ys. f x = Inr y"
  by (auto simp: sequence_Inr_iff list_eq_iff_nth_eq in_set_conv_nth)

lemma sequence_Inl_elem:
  "sequence rs = Inl e \<Longrightarrow> Inl e \<in> set rs"
proof (induction rs)
  case Nil
  then show ?case by simp
next
  case (Cons r rs)
  then show ?case by (cases r) (auto split: sum.splits)
qed

lemma sequence_append_Inr:
  "sequence (map Inr ys @ rs) = (case sequence rs of Inl e \<Rightarrow> Inl e | Inr zs \<Rightarrow> Inr (ys @ zs))"
  by (induction ys) (auto split: sum.splits)

text \<open>groupby\<close>

lemma groupby_snoc:
  "groupby key val (xs @ [x]) = groupby_add (key x) (val x) (groupby key val xs)"
  by (simp add: groupby_def)

lemma groupby_Nil [simp]: "groupby key val [] = []"
  by (simp add: groupby_def)

lemma groupby_add_keys: "set (map fst (groupby_add k v g)) = insert k (set (map fst g))"
  by (induction g) force+

lemma groupby_add_distinct: "distinct (map fst g) \<Longrightarrow> distinct (map fst (groupby_add k v g))"
proof (induction g)
  case Nil
  then show ?case by simp
next
  case (Cons a g)
  have "fst ` set (groupby_add k v g) = insert k (fst ` set g)"
    using groupby_add_keys[of k v g] by simp
  with Cons show ?case
    by (cases a) (auto simp: image_iff)
qed

lemma groupby_keys: "set (map fst (groupby key val xs)) = key ` set xs"
  by (induction xs rule: rev_induct) (auto simp: groupby_snoc groupby_add_keys simp del: set_map)

lemma groupby_distinct: "distinct (map fst (groupby key val xs))"
  by (induction xs rule: rev_induct) (auto simp: groupby_snoc groupby_add_distinct)

lemma groupby_length: "length (groupby key val xs) = card (key ` set xs)"
proof -
  have "length (groupby key val xs) = length (map fst (groupby key val xs))" by simp
  also have "\<dots> = card (set (map fst (groupby key val xs)))"
    using groupby_distinct[of key val xs] by (simp only: distinct_card)
  finally show ?thesis by (simp only: groupby_keys)
qed

lemma groupby_add_values:
  "distinct (map fst g) \<Longrightarrow>
   map_of (groupby_add k v g) k' =
     (if k' = k then Some ((case map_of g k of None \<Rightarrow> [] | Some vs \<Rightarrow> vs) @ [v]) else map_of g k')"
proof (induction g)
  case Nil
  then show ?case by simp
next
  case (Cons a g)
  then show ?case by (cases a) (auto simp: map_of_eq_None_iff image_iff)
qed

lemma groupby_values:
  "map_of (groupby key val xs) k =
     (if k \<in> key ` set xs then Some (map val (filter (\<lambda>x. key x = k) xs)) else None)"
proof (induction xs rule: rev_induct)
  case Nil
  then show ?case by simp
next
  case (snoc x xs)
  show ?case
    using snoc groupby_distinct[of key val xs]
    by (auto simp: groupby_snoc groupby_add_values filter_empty_conv image_iff) metis+
qed

lemma groupby_single:
  assumes "xs \<noteq> []" "\<forall>x \<in> set xs. key x = k"
  shows "groupby key val xs = [(k, map val xs)]"
proof -
  have "key ` set xs = {k}" using assms by (cases xs) auto
  then have len: "length (groupby key val xs) = 1" by (simp add: groupby_length)
  then obtain k' vs where g: "groupby key val xs = [(k', vs)]"
    by (cases "groupby key val xs") auto
  have "set (map fst (groupby key val xs)) = {k}"
    using \<open>key ` set xs = {k}\<close> by (simp only: groupby_keys)
  with g have "k' = k" by simp
  have "map_of (groupby key val xs) k = Some (map val (filter (\<lambda>x. key x = k) xs))"
    using \<open>key ` set xs = {k}\<close> by (simp add: groupby_values)
  with g \<open>k' = k\<close> have "vs = map val (filter (\<lambda>x. key x = k) xs)" by simp
  moreover have "filter (\<lambda>x. key x = k) xs = xs" using assms(2) by (simp add: filter_id_conv)
  ultimately show ?thesis using g \<open>k' = k\<close> by simp
qed

lemma groupby_length_le_1_iff:
  "length (groupby key val xs) \<le> 1 \<longleftrightarrow> (\<forall>x \<in> set xs. \<forall>y \<in> set xs. key x = key y)"
proof -
  have "card (key ` set xs) \<le> 1 \<longleftrightarrow> (\<forall>a \<in> key ` set xs. \<forall>b \<in> key ` set xs. a = b)"
    by (simp add: card_le_Suc0_iff_eq)
  then show ?thesis by (auto simp: groupby_length)
qed

text \<open>py_dict\<close>

lemma dict_set_fresh: "k \<notin> set (map fst d) \<Longrightarrow> dict_set k v d = d @ [(k, v)]"
  by (induction d) auto

lemma py_dict_distinct: "distinct (map fst kvs) \<Longrightarrow> py_dict kvs = kvs"
proof (induction kvs rule: rev_induct)
  case Nil
  then show ?case by (simp add: py_dict_def)
next
  case (snoc kv kvs)
  then have "py_dict kvs = kvs" by simp
  moreover have "py_dict (kvs @ [kv]) = dict_set (fst kv) (snd kv) (py_dict kvs)"
    by (simp add: py_dict_def case_prod_beta)
  ultimately show ?case using snoc.prems by (simp add: dict_set_fresh)
qed

lemma host_shape_normalized: "normalized m h x v \<Longrightarrow> host_shape m v = Inr h"
  by (auto simp: normalized_def host_shape_def split: pyval.splits fdtype.splits)

lemma normalized_not_missing: "normalized m h x v \<Longrightarrow> \<not> is_value_missing v"
  by (auto simp: normalized_def is_value_missing_def split: pyval.splits fdtype.splits)

lemma asarray_same:
  "nd_dtype a = d \<Longrightarrow> nd_xnp a = x \<Longrightarrow> asarray B x d a = a"
  by (cases a) (simp add: asarray_def)

lemma asarray_sel [simp]:
  "nd_shape (asarray B x d a) = nd_shape a"
  "nd_xnp (asarray B x d a) = x"
  "nd_dtype (asarray B x d a) = d"
  "length (nd_data (asarray B x d a)) = length (nd_data a)"
  by (simp_all add: asarray_def)

lemma bind_missing:
  "is_value_missing v \<Longrightarrow>
   bind_field B n m v = Inr \<lparr>af_name = n, af_meta = m, af_value = v, af_xnp = None\<rparr>"
  by (simp add: bind_field_def)

lemma bind_normalized:
  assumes "normalized m h x v"
  shows "bind_field B n m v = Inr \<lparr>af_name = n, af_meta = m, af_value = v, af_xnp = Some x\<rparr>"
proof -
  note nm = normalized_not_missing[OF assms]
  note hs = host_shape_normalized[OF assms]
  show ?thesis
  proof (cases v)
    case (PArray a)
    with assms obtain d where d: "dtype m = Prim d" "nd_dtype a = d" "nd_xnp a = x"
      "nd_shape a = h @ inner_shape m"
      by (auto simp: normalized_def split: fdtype.splits)
    then have "asarray B (nd_xnp a) d a = a" by (simp add: asarray_same)
    with PArray d nm hs show ?thesis
      by (simp add: bind_field_def init_array_def)
  next
    case (PDc r)
    with assms obtain c where c: "dtype m = Nested c" "cls_name (dc_cls r) = c" "dc_xnp r = x"
      "dc_shape r = Some (h @ inner_shape m)"
      by (auto simp: normalized_def split: fdtype.splits)
    with PDc nm hs show ?thesis
      by (simp add: bind_field_def init_dataclass_def)
  qed (use assms in \<open>auto simp: normalized_def\<close>)
qed

lemma bind_Inr_D:
  assumes "bind_field B n m v = Inr f"
  shows "af_name f = n \<and> af_meta f = m
    \<and> (is_value_missing v \<longrightarrow> af_value f = v \<and> af_xnp f = None)
    \<and> (\<not> is_value_missing v \<longrightarrow> (\<exists>h x. normalized m h x (af_value f) \<and> af_xnp f = Some x))"
proof (cases "is_value_missing v")
  case True
  with assms show ?thesis by (auto simp: bind_field_def)
next
  case False
  show ?thesis
  proof (cases "dtype m")
    case (Prim d)
    with assms False obtain a where a: "v = PArray a"
      by (cases v) (auto simp: bind_field_def init_array_def is_value_missing_def)
    let ?a = "asarray B (nd_xnp a) d a"
    from assms False Prim a have f: "f = \<lparr>af_name = n, af_meta = m, af_value = PArray ?a, af_xnp = Some (nd_xnp a)\<rparr>"
      and sh: "\<exists>h. host_shape m (PArray ?a) = Inr h \<and> nd_shape ?a = h @ inner_shape m"
      by (auto simp: bind_field_def init_array_def split: sum.splits if_splits)
    from sh obtain h where "nd_shape ?a = h @ inner_shape m" by blast
    with Prim have "normalized m h (nd_xnp a) (PArray ?a)"
      by (simp add: normalized_def)
    with f False show ?thesis by auto
  next
    case (Nested c)
    with assms False obtain r where r: "v = PDc r" "cls_name (dc_cls r) = c"
      by (cases v) (auto simp: bind_field_def init_dataclass_def is_value_missing_def split: if_splits)
    from assms False Nested r have f: "f = \<lparr>af_name = n, af_meta = m, af_value = v, af_xnp = Some (dc_xnp r)\<rparr>"
      and sh: "\<exists>h. host_shape m v = Inr h \<and> dc_shape r = Some (h @ inner_shape m)"
      by (auto simp: bind_field_def init_dataclass_def split: sum.splits if_splits)
    from sh obtain h where "dc_shape r = Some (h @ inner_shape m)" by blast
    with Nested r False have "normalized m h (dc_xnp r) v"
      by (simp add: normalized_def is_value_missing_def)
    with f False show ?thesis by auto
  qed
qed

lemma bind_missing_iff:
  "bind_field B n m v = Inr f \<Longrightarrow> is_value_missing (af_value f) \<longleftrightarrow> is_value_missing v"
  using bind_Inr_D[of B n m v f] normalized_not_missing by blast

lemma bind_idem:
  assumes "bind_field B n m v = Inr f"
  shows "bind_field B n m (af_value f) = Inr f"
proof (cases "is_value_missing v")
  case True
  with bind_Inr_D[OF assms] have "f = \<lparr>af_name = n, af_meta = m, af_value = v, af_xnp = None\<rparr>"
    by (cases f) auto
  with True show ?thesis by (simp add: bind_missing)
next
  case False
  with bind_Inr_D[OF assms] obtain h x where
    "normalized m h x (af_value f)" "af_xnp f = Some x" "af_name f = n" "af_meta f = m"
    by blast
  with bind_normalized[of m h x "af_value f" B n] show ?thesis
    by (cases f) auto
qed

lemma all_array_fields_decls:
  "all_array_fields B cls attrs =
     sequence (map (\<lambda>(n, m). case map_of attrs n of
                      None \<Rightarrow> Inl (AttributeError (NoAttribute n))
                    | Some v \<Rightarrow> bind_field B n m v) (array_decls cls))"
proof -
  have "concat (map (\<lambda>f. case f_meta f of
                      None \<Rightarrow> []
                    | Some m \<Rightarrow>
                        [case map_of attrs (f_name f) of
                           None \<Rightarrow> Inl (AttributeError (NoAttribute (f_name f)))
                         | Some v \<Rightarrow> bind_field B (f_name f) m v]) fs)
      = map (\<lambda>(n, m). case map_of attrs n of
                      None \<Rightarrow> Inl (AttributeError (NoAttribute n))
                    | Some v \<Rightarrow> bind_field B n m v)
          (concat (map (\<lambda>f. case f_meta f of None \<Rightarrow> [] | Some m \<Rightarrow> [(f_name f, m)]) fs))" for fs
    by (induction fs) (auto split: option.splits)
  then show ?thesis unfolding all_array_fields_def array_decls_def by (rule arg_cong)
qed

lemma all_array_fields_Inr_D:
  assumes "all_array_fields B cls attrs = Inr fs"
  shows "length fs = length (array_decls cls)"
    and "\<And>i. i < length fs \<Longrightarrow>
          \<exists>v. map_of attrs (fst (array_decls cls ! i)) = Some v
             \<and> bind_field B (fst (array_decls cls ! i)) (snd (array_decls cls ! i)) v = Inr (fs ! i)"
proof -
  note s = sequence_map_Inr_D[OF assms[unfolded all_array_fields_decls]]
  from s show len: "length fs = length (array_decls cls)" by simp
  fix i assume "i < length fs"
  with s len show "\<exists>v. map_of attrs (fst (array_decls cls ! i)) = Some v
             \<and> bind_field B (fst (array_decls cls ! i)) (snd (array_decls cls ! i)) v = Inr (fs ! i)"
    by (auto simp: case_prod_beta split: option.splits)
qed

lemma all_array_fields_names:
  assumes "all_array_fields B cls attrs = Inr fs"
  shows "map (\<lambda>f. (af_name f, af_meta f)) fs = array_decls cls"
proof (rule nth_equalityI)
  show "length (map (\<lambda>f. (af_name f, af_meta f)) fs) = length (array_decls cls)"
    using all_array_fields_Inr_D(1)[OF assms] by simp
next
  fix i assume "i < length (map (\<lambda>f. (af_name f, af_meta f)) fs)"
  then have i: "i < length fs" by simp
  from all_array_fields_Inr_D(2)[OF assms i] obtain v where
    "bind_field B (fst (array_decls cls ! i)) (snd (array_decls cls ! i)) v = Inr (fs ! i)" by blast
  from bind_Inr_D[OF this] i show "map (\<lambda>f. (af_name f, af_meta f)) fs ! i = array_decls cls ! i"
    by (simp add: prod_eq_iff)
qed


lemma post_init_unfold:
  assumes "cls_frozen cls" "all_array_fields B cls attrs = Inr fs" "fs \<noteq> []"
    and "sequence (map (\<lambda>f. case af_xnp f of
                                          None \<Rightarrow> Inl (AttributeError (NoAttribute ''xnp''))
                                        | Some x \<Rightarrow> Inr (x, af_name f)) (filter af_active fs)) = Inr xs"
    and "sequence (map (\<lambda>f. case host_shape (af_meta f) (af_value f) of
                                                 Inl e \<Rightarrow> Inl e
                                               | Inr h \<Rightarrow> Inr (h, af_name f)) (filter af_active fs)) = Inr hs"
  shows "post_init B cls attrs =
     (if length (groupby fst snd xs) > 1 then Inl (ValueError (ConflictingNumpyTypes (groupby fst snd xs)))
      else if length (groupby fst snd hs) > 1 then Inl (ValueError (ConflictingBatchShapes (groupby fst snd hs)))
      else (case (groupby fst snd xs, groupby fst snd hs) of
              ((x, _) # _, (s, _) # _) \<Rightarrow>
                 Inr (Dc cls (write_back fs attrs) (Some s) x (map (\<lambda>f. (af_name f, af_meta f)) (filter af_active fs)))
            | _ \<Rightarrow> Inr (Dc cls (write_back fs attrs) None NP (map (\<lambda>f. (af_name f, af_meta f)) (filter af_active fs)))))"
  using assms by (simp add: post_init_def Let_def)

lemma active_seqs:
  assumes "\<forall>f \<in> set fs. af_active f \<longrightarrow> af_xnp f = Some x \<and> host_shape (af_meta f) (af_value f) = Inr h"
  shows "sequence (map (\<lambda>f. case af_xnp f of
                                          None \<Rightarrow> Inl (AttributeError (NoAttribute ''xnp''))
                                        | Some x \<Rightarrow> Inr (x, af_name f)) (filter af_active fs))
          = Inr (map (\<lambda>f. (x, af_name f)) (filter af_active fs))"
    and "sequence (map (\<lambda>f. case host_shape (af_meta f) (af_value f) of
                                                 Inl e \<Rightarrow> Inl e
                                               | Inr h \<Rightarrow> Inr (h, af_name f)) (filter af_active fs))
          = Inr (map (\<lambda>f. (h, af_name f)) (filter af_active fs))"
  using assms by (auto intro!: sequence_map_cong_Inr)

lemma post_init_Inr_I:
  assumes "cls_frozen cls" "all_array_fields B cls attrs = Inr fs" "fs \<noteq> []"
    and act: "\<forall>f \<in> set fs. af_active f \<longrightarrow> af_xnp f = Some x \<and> host_shape (af_meta f) (af_value f) = Inr h"
    and ne: "filter af_active fs \<noteq> []"
  shows "post_init B cls attrs =
     Inr (Dc cls (write_back fs attrs) (Some h) x (map (\<lambda>f. (af_name f, af_meta f)) (filter af_active fs)))"
proof -
  let ?af = "filter af_active fs"
  have gx: "groupby fst snd (map (\<lambda>f. (x, af_name f)) ?af) = [(x, map snd (map (\<lambda>f. (x, af_name f)) ?af))]"
    using ne by (intro groupby_single) auto
  have gh: "groupby fst snd (map (\<lambda>f. (h, af_name f)) ?af) = [(h, map snd (map (\<lambda>f. (h, af_name f)) ?af))]"
    using ne by (intro groupby_single) auto
  show ?thesis
    by (simp only: post_init_unfold[OF assms(1-3) active_seqs[OF act]] gx gh) simp
qed

lemma post_init_all_missing:
  assumes "cls_frozen cls" "all_array_fields B cls attrs = Inr fs" "fs \<noteq> []"
    and "filter af_active fs = []"
  shows "post_init B cls attrs = Inr (Dc cls (write_back fs attrs) None NP [])"
  using assms by (simp add: post_init_def Let_def)

lemma post_init_Inr_D:
  assumes "post_init B cls attrs = Inr r"
  shows "cls_frozen cls \<and> (\<exists>fs. all_array_fields B cls attrs = Inr fs \<and> fs \<noteq> []
     \<and> dc_cls r = cls \<and> dc_attrs r = write_back fs attrs
     \<and> dc_active r = map (\<lambda>f. (af_name f, af_meta f)) (filter af_active fs)
     \<and> (\<forall>f \<in> set fs. af_active f \<longrightarrow>
           af_xnp f = Some (dc_xnp r)
           \<and> (\<exists>h. dc_shape r = Some h \<and> host_shape (af_meta f) (af_value f) = Inr h))
     \<and> (filter af_active fs = [] \<longrightarrow> dc_shape r = None \<and> dc_xnp r = NP))"
proof -
  have fr: "cls_frozen cls"
  proof (rule ccontr)
    assume "\<not> cls_frozen cls"
    then have "post_init B cls attrs = Inl (ValueError NotFrozenDataclass)"
      by (simp add: post_init_def)
    with assms show False by simp
  qed
  obtain fs where fs0: "all_array_fields B cls attrs = Inr fs"
  proof (cases "all_array_fields B cls attrs")
    case (Inl e)
    with fr have "post_init B cls attrs = Inl e" by (simp add: post_init_def)
    with assms show ?thesis by simp
  qed
  have fsne: "fs \<noteq> []"
  proof
    assume "fs = []"
    with fr fs0 have "post_init B cls attrs = Inl (ValueError (NoArrayField (cls_name cls)))"
      by (simp add: post_init_def)
    with assms show False by simp
  qed
  note fs = fs0 fsne
  let ?af = "filter af_active fs"
  let ?fx = "\<lambda>f. case af_xnp f of
                                          None \<Rightarrow> Inl (AttributeError (NoAttribute ''xnp''))
                                        | Some x \<Rightarrow> Inr (x, af_name f)"
  let ?fh = "\<lambda>f. case host_shape (af_meta f) (af_value f) of
                                                 Inl e \<Rightarrow> Inl e
                                               | Inr h \<Rightarrow> Inr (h, af_name f)"
  obtain xs where xs: "sequence (map ?fx ?af) = Inr xs"
  proof (cases "sequence (map ?fx ?af)")
    case (Inl e)
    with fr fs have "post_init B cls attrs = Inl e" by (simp add: post_init_def Let_def)
    with assms show ?thesis by simp
  qed
  have lx: "length (groupby fst snd xs) \<le> 1"
  proof (rule ccontr)
    assume "\<not> length (groupby fst snd xs) \<le> 1"
    with fr fs xs have "post_init B cls attrs = Inl (ValueError (ConflictingNumpyTypes (groupby fst snd xs)))"
      by (simp add: post_init_def Let_def)
    with assms show False by simp
  qed
  obtain hs where hs: "sequence (map ?fh ?af) = Inr hs"
  proof (cases "sequence (map ?fh ?af)")
    case (Inl e)
    with fr fs xs lx have "post_init B cls attrs = Inl e" by (simp add: post_init_def Let_def)
    with assms show ?thesis by simp
  qed
  note u = post_init_unfold[OF fr fs xs hs]
  have lh: "length (groupby fst snd hs) \<le> 1"
  proof (rule ccontr)
    assume "\<not> length (groupby fst snd hs) \<le> 1"
    with u lx have "post_init B cls attrs = Inl (ValueError (ConflictingBatchShapes (groupby fst snd hs)))"
      by simp
    with assms show False by simp
  qed
  note dx = sequence_map_Inr_D[OF xs]
  note dh = sequence_map_Inr_D[OF hs]
  show ?thesis
  proof (cases "?af = []")
    case True
    with xs hs have "xs = []" "hs = []" by auto
    with u True have r: "r = Dc cls (write_back fs attrs) None NP []"
      using assms by simp
    have "\<forall>f \<in> set fs. \<not> af_active f"
      using True by (simp add: filter_empty_conv)
    with r True fs have "all_array_fields B cls attrs = Inr fs \<and> fs \<noteq> []
     \<and> dc_cls r = cls \<and> dc_attrs r = write_back fs attrs
     \<and> dc_active r = map (\<lambda>f. (af_name f, af_meta f)) (filter af_active fs)
     \<and> (\<forall>f \<in> set fs. af_active f \<longrightarrow>
           af_xnp f = Some (dc_xnp r)
           \<and> (\<exists>h. dc_shape r = Some h \<and> host_shape (af_meta f) (af_value f) = Inr h))
     \<and> (filter af_active fs = [] \<longrightarrow> dc_shape r = None \<and> dc_xnp r = NP)"
      by simp
    with fr show ?thesis by blast
  next
    case False
    then have xne: "xs \<noteq> []" and hne: "hs \<noteq> []" using dx dh by auto
    define kx where "kx = fst (hd xs)"
    define kh where "kh = fst (hd hs)"
    have allx: "\<forall>p \<in> set xs. fst p = kx"
    proof -
      from lx have "\<forall>x \<in> set xs. \<forall>y \<in> set xs. fst x = fst y"
        by (simp only: groupby_length_le_1_iff)
      moreover have "hd xs \<in> set xs" using xne by simp
      ultimately show ?thesis unfolding kx_def by blast
    qed
    have allh: "\<forall>p \<in> set hs. fst p = kh"
    proof -
      from lh have "\<forall>x \<in> set hs. \<forall>y \<in> set hs. fst x = fst y"
        by (simp only: groupby_length_le_1_iff)
      moreover have "hd hs \<in> set hs" using hne by simp
      ultimately show ?thesis unfolding kh_def by blast
    qed
    have gx: "groupby fst snd xs = [(kx, map snd xs)]"
      using xne allx by (intro groupby_single) auto
    have gh: "groupby fst snd hs = [(kh, map snd hs)]"
      using hne allh by (intro groupby_single) auto
    have "post_init B cls attrs = Inr (Dc cls (write_back fs attrs) (Some kh) kx (map (\<lambda>f. (af_name f, af_meta f)) ?af))"
      by (simp only: u gx gh) simp
    with assms have r: "r = Dc cls (write_back fs attrs) (Some kh) kx (map (\<lambda>f. (af_name f, af_meta f)) ?af)"
      by simp
    have act: "af_xnp f = Some kx \<and> host_shape (af_meta f) (af_value f) = Inr kh"
      if "f \<in> set ?af" for f
    proof -
      from that obtain i where i: "i < length ?af" "?af ! i = f"
        unfolding in_set_conv_nth[of f "filter af_active fs"] by blast
      with dx have "?fx f = Inr (xs ! i)" "xs ! i \<in> set xs" by auto
      with allx have 1: "af_xnp f = Some kx" by (auto split: option.splits) (metis fst_conv)
      from i dh have "?fh f = Inr (hs ! i)" "hs ! i \<in> set hs" by auto
      with allh have 2: "host_shape (af_meta f) (af_value f) = Inr kh" by (auto split: sum.splits) (metis fst_conv)
      from 1 2 show ?thesis by simp
    qed
    have "\<forall>f \<in> set fs. af_active f \<longrightarrow>
           af_xnp f = Some (dc_xnp r)
           \<and> (\<exists>h. dc_shape r = Some h \<and> host_shape (af_meta f) (af_value f) = Inr h)"
      using act r by simp
    moreover have "dc_cls r = cls" "dc_attrs r = write_back fs attrs"
      "dc_active r = map (\<lambda>f. (af_name f, af_meta f)) (filter af_active fs)"
      using r by simp_all
    ultimately show ?thesis using fr fs False by blast
  qed
qed

lemma array_decls_distinct:
  assumes "distinct (map f_name (cls_fields cls))"
  shows "distinct (map fst (array_decls cls))"
proof -
  have "distinct (map f_name fs) \<Longrightarrow>
        distinct (map fst (concat (map (\<lambda>f. case f_meta f of None \<Rightarrow> [] | Some m \<Rightarrow> [(f_name f, m)]) fs)))
        \<and> fst ` set (concat (map (\<lambda>f. case f_meta f of None \<Rightarrow> [] | Some m \<Rightarrow> [(f_name f, m)]) fs))
            \<subseteq> f_name ` set fs" for fs :: "dc_field list"
    by (induction fs) (auto split: option.splits)
  from this[OF assms] show ?thesis unfolding array_decls_def by blast
qed

lemma array_decls_names:
  "fst ` set (array_decls cls) \<subseteq> f_name ` set (cls_fields cls)"
  by (auto simp: array_decls_def split: option.splits)

lemma bound_names_distinct:
  assumes "distinct (map f_name (cls_fields cls))" "all_array_fields B cls attrs = Inr fs"
  shows "distinct (map af_name fs)"
proof -
  have "map af_name fs = map fst (map (\<lambda>f. (af_name f, af_meta f)) fs)" by simp
  also have "\<dots> = map fst (array_decls cls)"
    by (simp only: all_array_fields_names[OF assms(2)])
  finally show ?thesis using array_decls_distinct[OF assms(1)] by simp
qed

lemma find_distinct:
  "distinct (map g xs) \<Longrightarrow> x \<in> set xs \<Longrightarrow> find (\<lambda>y. g y = g x) xs = Some x"
  by (induction xs) (auto simp: image_iff)

lemma find_None_name:
  "n \<notin> af_name ` set fs \<Longrightarrow> find (\<lambda>f. af_name f = n) fs = None"
  by (auto simp: find_None_iff)

lemma write_back_keys [simp]: "map fst (write_back fs attrs) = map fst attrs"
  by (simp add: write_back_def case_prod_beta)

lemma write_back_map_of:
  "map_of (write_back fs attrs) n =
     map_option (\<lambda>v. case find (\<lambda>f. af_name f = n) fs of None \<Rightarrow> v | Some f \<Rightarrow> af_value f)
       (map_of attrs n)"
  by (induction attrs) (auto simp: write_back_def split: option.splits)

lemma write_back_idem: "write_back fs (write_back fs attrs) = write_back fs attrs"
  by (auto simp: write_back_def split: option.splits)

lemma write_back_bound:
  assumes "distinct (map af_name fs)" "f \<in> set fs" "map_of attrs (af_name f) = Some v"
  shows "map_of (write_back fs attrs) (af_name f) = Some (af_value f)"
  using find_distinct[OF assms(1,2)] assms(3) by (simp add: write_back_map_of)

lemma write_back_other:
  assumes "n \<notin> af_name ` set fs"
  shows "map_of (write_back fs attrs) n = map_of attrs n"
  using find_None_name[OF assms] by (simp add: write_back_map_of option.map_ident)

lemma all_array_fields_rebind:
  assumes d: "distinct (map f_name (cls_fields cls))"
    and fs: "all_array_fields B cls attrs = Inr fs"
  shows "all_array_fields B cls (write_back fs attrs) = Inr fs"
proof -
  note dn = bound_names_distinct[OF d fs]
  note len = all_array_fields_Inr_D(1)[OF fs]
  have "map (\<lambda>(n, m). case map_of (write_back fs attrs) n of
                      None \<Rightarrow> Inl (AttributeError (NoAttribute n))
                    | Some v \<Rightarrow> bind_field B n m v) (array_decls cls) = map Inr fs"
  proof (rule nth_equalityI)
    show "length (map (\<lambda>(n, m). case map_of (write_back fs attrs) n of
                      None \<Rightarrow> Inl (AttributeError (NoAttribute n))
                    | Some v \<Rightarrow> bind_field B n m v) (array_decls cls)) = length (map Inr fs)"
      using len by simp
  next
    fix i assume "i < length (map (\<lambda>(n, m). case map_of (write_back fs attrs) n of
                      None \<Rightarrow> Inl (AttributeError (NoAttribute n))
                    | Some v \<Rightarrow> bind_field B n m v) (array_decls cls))"
    then have i: "i < length fs" using len by simp
    obtain n m where nm: "array_decls cls ! i = (n, m)" by (cases "array_decls cls ! i")
    from all_array_fields_Inr_D(2)[OF fs i] nm obtain v where
      v: "map_of attrs n = Some v" "bind_field B n m v = Inr (fs ! i)" by auto
    from bind_Inr_D[OF v(2)] have name: "af_name (fs ! i) = n" by simp
    from i have mem: "fs ! i \<in> set fs" by simp
    from write_back_bound[OF dn mem] v(1) name
    have "map_of (write_back fs attrs) n = Some (af_value (fs ! i))" by simp
    with bind_idem[OF v(2)] nm i len
    show "map (\<lambda>(n, m). case map_of (write_back fs attrs) n of
                      None \<Rightarrow> Inl (AttributeError (NoAttribute n))
                    | Some v \<Rightarrow> bind_field B n m v) (array_decls cls) ! i = map Inr fs ! i"
      by simp
  qed
  then show ?thesis by (simp only: all_array_fields_decls sequence_map_Inr)
qed

lemma post_init_idem:
  assumes d: "distinct (map f_name (cls_fields cls))"
    and r: "post_init B cls attrs = Inr r"
  shows "post_init B cls (dc_attrs r) = Inr r"
proof -
  from post_init_Inr_D[OF r] obtain fs where fr: "cls_frozen cls"
    and fs: "all_array_fields B cls attrs = Inr fs" "fs \<noteq> []"
    and rc: "dc_cls r = cls" "dc_attrs r = write_back fs attrs"
      "dc_active r = map (\<lambda>f. (af_name f, af_meta f)) (filter af_active fs)"
    and act: "\<forall>f \<in> set fs. af_active f \<longrightarrow>
           af_xnp f = Some (dc_xnp r)
           \<and> (\<exists>h. dc_shape r = Some h \<and> host_shape (af_meta f) (af_value f) = Inr h)"
    and mis: "filter af_active fs = [] \<longrightarrow> dc_shape r = None \<and> dc_xnp r = NP"
    by blast
  note fs' = all_array_fields_rebind[OF d fs(1)]
  show ?thesis
  proof (cases "filter af_active fs = []")
    case True
    from post_init_all_missing[OF fr fs' fs(2) True] True mis rc
    show ?thesis by (cases r) (simp add: write_back_idem)
  next
    case False
    then obtain f where f: "f \<in> set fs" "af_active f"
      by (auto simp: filter_empty_conv)
    with act obtain h where h: "dc_shape r = Some h" by blast
    with act have "\<forall>f \<in> set fs. af_active f \<longrightarrow>
        af_xnp f = Some (dc_xnp r) \<and> host_shape (af_meta f) (af_value f) = Inr h"
      by auto
    from post_init_Inr_I[OF fr fs' fs(2) this False] h rc
    show ?thesis by (cases r) (simp add: write_back_idem)
  qed
qed

lemma dc_init_Inr_D:
  "dc_init B cls kw = Inr r \<Longrightarrow> post_init B cls (init_attrs cls kw) = Inr r"
  by (auto simp: dc_init_def split: option.splits)

lemma dc_init_eq:
  assumes "set (map fst kw) \<subseteq> set (map f_name (filter f_init (cls_fields cls)))"
    and "\<forall>f \<in> set (cls_fields cls). \<not> f_init f \<or> f_has_default f \<or> f_name f \<in> set (map fst kw)"
  shows "dc_init B cls kw = post_init B cls (init_attrs cls kw)"
proof -
  have 1: "find (\<lambda>k. k \<notin> set (map f_name (filter f_init (cls_fields cls)))) (map fst kw) = None"
    using assms(1) by (auto simp: find_None_iff)
  have 2: "find (\<lambda>f. f_init f \<and> \<not> f_has_default f \<and> f_name f \<notin> set (map fst kw))
             (cls_fields cls) = None"
    using assms(2) by (auto simp: find_None_iff)
  show ?thesis unfolding dc_init_def 1 2 by simp
qed

lemma init_attrs_map:
  assumes "\<forall>f \<in> set (cls_fields cls). f_init f \<or> f_has_default f"
  shows "init_attrs cls kw =
     map (\<lambda>f. (f_name f, if f_init f
                          then (case map_of kw (f_name f) of Some v \<Rightarrow> v | None \<Rightarrow> PNone)
                          else PNone)) (cls_fields cls)"
proof -
  have "concat (map (\<lambda>f. if f_init f
                      then [(f_name f, case map_of kw (f_name f) of Some v \<Rightarrow> v | None \<Rightarrow> PNone)]
                      else if f_has_default f then [(f_name f, PNone)] else []) fs)
        = map (\<lambda>f. (f_name f, if f_init f
                          then (case map_of kw (f_name f) of Some v \<Rightarrow> v | None \<Rightarrow> PNone)
                          else PNone)) fs"
    if "\<forall>f \<in> set fs. f_init f \<or> f_has_default f" for fs :: "dc_field list"
    using that by (induction fs) auto
  from this[OF assms] show ?thesis unfolding init_attrs_def .
qed

lemma init_attrs_keys:
  assumes "\<forall>f \<in> set (cls_fields cls). f_init f \<or> f_has_default f"
  shows "map fst (init_attrs cls kw) = map f_name (cls_fields cls)"
  by (simp add: init_attrs_map[OF assms] o_def)

lemma post_init_keys:
  "post_init B cls attrs = Inr r \<Longrightarrow> map fst (dc_attrs r) = map fst attrs"
  using post_init_Inr_D[of B cls attrs r] by auto

lemma post_init_cls:
  "post_init B cls attrs = Inr r \<Longrightarrow> dc_cls r = cls"
  using post_init_Inr_D[of B cls attrs r] by auto

lemma attrs_as_map:
  assumes "distinct (map fst A)"
  shows "map (\<lambda>n. (n, case map_of A n of Some v \<Rightarrow> v | None \<Rightarrow> d)) (map fst A) = A"
proof -
  have "(fst p, case map_of A (fst p) of Some v \<Rightarrow> v | None \<Rightarrow> d) = p" if "p \<in> set A" for p
  proof -
    from that have "(fst p, snd p) \<in> set A" by simp
    from map_of_is_SomeI[OF assms this] show ?thesis by simp
  qed
  then have "map (\<lambda>p. (fst p, case map_of A (fst p) of Some v \<Rightarrow> v | None \<Rightarrow> d)) A = A"
    by (simp add: map_idI)
  then show ?thesis by (simp add: o_def)
qed

lemma getattr_key:
  "n \<in> set (map fst (dc_attrs r)) \<Longrightarrow>
   dc_getattr r n = Inr (case map_of (dc_attrs r) n of Some v \<Rightarrow> v | None \<Rightarrow> PNone)"
  by (auto simp: dc_getattr_def map_of_eq_None_iff split: option.splits)

lemma write_back_id:
  assumes "distinct (map fst attrs)"
    and "\<forall>f \<in> set fs. map_of attrs (af_name f) = Some (af_value f)"
  shows "write_back fs attrs = attrs"
proof -
  have "(case p of (n, v) \<Rightarrow> (n, case find (\<lambda>f. af_name f = n) fs of
                          None \<Rightarrow> v
                        | Some f \<Rightarrow> af_value f)) = p" if p: "p \<in> set attrs" for p
  proof (cases "find (\<lambda>f. af_name f = fst p) fs")
    case None
    then show ?thesis by (simp add: case_prod_beta)
  next
    case (Some f)
    then have "f \<in> set fs" "af_name f = fst p"
      by (auto simp: find_Some_iff)
    with assms(2) have "map_of attrs (fst p) = Some (af_value f)" by auto
    moreover from p have "(fst p, snd p) \<in> set attrs" by simp
    from map_of_is_SomeI[OF assms(1) this] have "map_of attrs (fst p) = Some (snd p)" .
    ultimately have "af_value f = snd p" by simp
    with Some show ?thesis by (simp add: case_prod_beta)
  qed
  then show ?thesis unfolding write_back_def by (rule map_idI)
qed

lemma array_names_decls:
  "map f_name (filter (\<lambda>f. f_meta f \<noteq> None) (cls_fields cls)) = map fst (array_decls cls)"
proof -
  have "map f_name (filter (\<lambda>f. f_meta f \<noteq> None) fs)
        = map fst (concat (map (\<lambda>f. case f_meta f of None \<Rightarrow> [] | Some m \<Rightarrow> [(f_name f, m)]) fs))"
    for fs :: "dc_field list"
    by (induction fs) auto
  then show ?thesis by (simp only: array_decls_def)
qed

lemma map_of_map_key:
  "map_of (map (\<lambda>x. (k x, g (k x))) xs) n = (if n \<in> k ` set xs then Some (g n) else None)"
  by (induction xs) auto

lemma array_names_distinct:
  "distinct (map f_name (cls_fields cls)) \<Longrightarrow> distinct (array_names cls)"
  unfolding array_names_def by (rule distinct_map_filter)

lemma array_names_subset: "set (array_names cls) \<subseteq> f_name ` set (cls_fields cls)"
  by (auto simp: array_names_def)

lemma getattr_attr_of:
  "n \<in> fst ` set (dc_attrs r) \<Longrightarrow> dc_getattr r n = Inr (attr_of r n)"
  using getattr_key[of n r] by (simp add: attr_of_def)

lemma tree_flatten_eq:
  assumes "map fst (dc_attrs r) = map f_name (cls_fields (dc_cls r))"
  shows "tree_flatten r =
     Inr (map (attr_of r) (array_names (dc_cls r)),
          \<lparr>array_field_names = array_names (dc_cls r),
           non_array_field_kwargs =
             map (\<lambda>f. (f_name f, attr_of r (f_name f))) (other_fields (dc_cls r))\<rparr>)"
proof -
  have keys: "fst ` set (dc_attrs r) = f_name ` set (cls_fields (dc_cls r))"
    using arg_cong[OF assms, of set] by simp
  have 1: "sequence (map (dc_getattr r) (array_names (dc_cls r)))
            = Inr (map (attr_of r) (array_names (dc_cls r)))"
    using array_names_subset[of "dc_cls r"] keys
    by (intro sequence_map_cong_Inr getattr_attr_of) auto
  have 2: "sequence (map (\<lambda>f. case dc_getattr r (f_name f) of
                                 Inl e \<Rightarrow> Inl e
                               | Inr v \<Rightarrow> Inr (f_name f, v)) (other_fields (dc_cls r)))
            = Inr (map (\<lambda>f. (f_name f, attr_of r (f_name f))) (other_fields (dc_cls r)))"
  proof (rule sequence_map_cong_Inr)
    fix f assume "f \<in> set (other_fields (dc_cls r))"
    then have "f_name f \<in> fst ` set (dc_attrs r)"
      unfolding keys by (simp add: other_fields_def)
    from getattr_attr_of[OF this]
    show "(case dc_getattr r (f_name f) of Inl e \<Rightarrow> Inl e | Inr v \<Rightarrow> Inr (f_name f, v))
          = Inr (f_name f, attr_of r (f_name f))" by simp
  qed
  show ?thesis
    unfolding tree_flatten_def Let_def array_names_def[symmetric] other_fields_def[symmetric] 1 2
    by simp
qed

lemma tree_unflatten_eq:
  assumes d: "distinct (map f_name (cls_fields cls))"
    and ai: "\<forall>f \<in> set (cls_fields cls). f_init f"
  shows "tree_unflatten B cls
           \<lparr>array_field_names = array_names cls,
            non_array_field_kwargs = map (\<lambda>f. (f_name f, g (f_name f))) (other_fields cls)\<rparr>
           (map h (array_names cls))
         = post_init B cls
             (map (\<lambda>f. (f_name f, if f_name f \<in> set (array_names cls) then h (f_name f)
                                    else g (f_name f))) (cls_fields cls))"
proof -
  let ?names = "array_names cls"
  let ?kw = "map (\<lambda>f. (f_name f, g (f_name f))) (other_fields cls)"
  let ?akw = "zip ?names (map h ?names)"
  have keys_a: "map fst ?akw = ?names" by simp
  have pd: "py_dict ?akw = ?akw"
    by (rule py_dict_distinct) (simp only: keys_a array_names_distinct[OF d])
  have keys_k: "map fst ?kw = map f_name (other_fields cls)" by (simp add: o_def)
  have nodup: "find (\<lambda>k. k \<in> set ?names) (map fst ?kw) = None"
    unfolding keys_k find_None_iff by (auto simp: other_fields_def)
  have sub: "set (map fst (?akw @ ?kw)) \<subseteq> set (map f_name (cls_fields cls))"
    unfolding map_append keys_a keys_k using array_names_subset[of cls]
    by (auto simp: other_fields_def)
  have cov: "\<forall>f \<in> set (cls_fields cls).
               \<not> f_init f \<or> f_has_default f \<or> f_name f \<in> set (map fst (?akw @ ?kw))"
    unfolding map_append keys_a keys_k by (auto simp: other_fields_def)
  have fi: "filter f_init (cls_fields cls) = cls_fields cls" using ai by simp
  have sub': "set (map fst (?akw @ ?kw)) \<subseteq> set (map f_name (filter f_init (cls_fields cls)))"
    unfolding fi by (rule sub)
  from ai have ai': "\<forall>f \<in> set (cls_fields cls). f_init f \<or> f_has_default f" by blast
  have look: "(case map_of (?akw @ ?kw) (f_name f) of Some v \<Rightarrow> v | None \<Rightarrow> PNone)
         = (if f_name f \<in> set ?names then h (f_name f) else g (f_name f))"
    if "f \<in> set (cls_fields cls)" for f
  proof (cases "f_name f \<in> set ?names")
    case True
    then show ?thesis by (simp add: map_of_zip_map)
  next
    case False
    with that have "f_name f \<in> f_name ` set (other_fields cls)"
      by (simp add: other_fields_def)
    with False show ?thesis
      by (simp add: map_of_zip_map map_add_def map_of_map_key)
  qed
  have ia: "init_attrs cls (?akw @ ?kw)
        = map (\<lambda>f. (f_name f, if f_name f \<in> set ?names then h (f_name f) else g (f_name f)))
            (cls_fields cls)"
    unfolding init_attrs_map[OF ai'] using look ai by (intro map_cong) auto
  have "tree_unflatten B cls
           \<lparr>array_field_names = ?names, non_array_field_kwargs = ?kw\<rparr> (map h ?names)
        = dc_init B cls (?akw @ ?kw)"
    unfolding tree_unflatten_def Let_def tree_metadata.simps pd keys_a nodup by simp
  also have "\<dots> = post_init B cls (init_attrs cls (?akw @ ?kw))"
    by (rule dc_init_eq[OF sub' cov])
  finally show ?thesis by (simp only: ia)
qed

lemma all_missing_bound:
  assumes "\<forall>(n, m) \<in> set (array_decls cls). \<exists>v. map_of attrs n = Some v \<and> is_value_missing v"
  shows "\<exists>fs. all_array_fields B cls attrs = Inr fs \<and> length fs = length (array_decls cls)
           \<and> filter af_active fs = []
           \<and> (\<forall>f \<in> set fs. map_of attrs (af_name f) = Some (af_value f))"
proof -
  define g where "g nm = \<lparr>af_name = fst nm, af_meta = snd nm,
      af_value = (case map_of attrs (fst nm) of Some v \<Rightarrow> v | None \<Rightarrow> PNone), af_xnp = None\<rparr>"
    for nm :: "string \<times> field_meta"
  have v: "\<exists>v. map_of attrs (fst nm) = Some v \<and> is_value_missing v"
    if "nm \<in> set (array_decls cls)" for nm
    using assms that by (cases nm) auto
  have "(case nm of (n, m) \<Rightarrow> case map_of attrs n of
                      None \<Rightarrow> Inl (AttributeError (NoAttribute n))
                    | Some v \<Rightarrow> bind_field B n m v) = Inr (g nm)"
    if "nm \<in> set (array_decls cls)" for nm
    using v[OF that] by (cases nm) (auto simp: g_def bind_missing)
  then have fs: "all_array_fields B cls attrs = Inr (map g (array_decls cls))"
    unfolding all_array_fields_decls by (rule sequence_map_cong_Inr)
  have "is_value_missing (af_value (g nm))" if "nm \<in> set (array_decls cls)" for nm
    using v[OF that] by (auto simp: g_def)
  then have none: "filter af_active (map g (array_decls cls)) = []"
    by (simp add: filter_empty_conv)
  have "map_of attrs (af_name (g nm)) = Some (af_value (g nm))"
    if "nm \<in> set (array_decls cls)" for nm
    using v[OF that] by (auto simp: g_def)
  then have "\<forall>f \<in> set (map g (array_decls cls)). map_of attrs (af_name f) = Some (af_value f)"
    by auto
  with fs none show ?thesis by (intro exI[of _ "map g (array_decls cls)"]) simp
qed

lemma post_init_none_attrs:
  assumes d: "distinct (map fst attrs)" and fr: "cls_frozen cls" and ne: "array_decls cls \<noteq> []"
    and mis: "\<forall>(n, m) \<in> set (array_decls cls). \<exists>v. map_of attrs n = Some v \<and> is_value_missing v"
  shows "post_init B cls attrs = Inr (Dc cls attrs None NP [])"
proof -
  from all_missing_bound[OF mis, of B] obtain fs where
    fs: "all_array_fields B cls attrs = Inr fs" "length fs = length (array_decls cls)"
      "filter af_active fs = []" "\<forall>f \<in> set fs. map_of attrs (af_name f) = Some (af_value f)"
    by blast
  from fs(2) ne have "fs \<noteq> []" by auto
  from post_init_all_missing[OF fr fs(1) this fs(3)] write_back_id[OF d fs(4)]
  show ?thesis by simp
qed


section \<open>Properties: construction\<close>

lemma bound_active_normalized:
  assumes fs: "all_array_fields B cls attrs = Inr fs" and f: "f \<in> set fs" "af_active f"
  shows "\<exists>h x. normalized (af_meta f) h x (af_value f) \<and> af_xnp f = Some x
           \<and> host_shape (af_meta f) (af_value f) = Inr h"
proof -
  from f(1) obtain i where i: "i < length fs" "fs ! i = f"
    unfolding in_set_conv_nth by blast
  from all_array_fields_Inr_D(2)[OF fs i(1)] i(2) obtain v where
    v: "bind_field B (fst (array_decls cls ! i)) (snd (array_decls cls ! i)) v = Inr f" by auto
  from bind_missing_iff[OF v] f(2) have "\<not> is_value_missing v" by simp
  with bind_Inr_D[OF v] obtain h x where
    "normalized (af_meta f) h x (af_value f)" "af_xnp f = Some x" by auto
  with host_shape_normalized show ?thesis by blast
qed

lemma bound_lookup:
  assumes d: "distinct (map f_name (cls_fields cls))"
    and fs: "all_array_fields B cls attrs = Inr fs"
    and nm: "(n, m) \<in> set (array_decls cls)"
  shows "\<exists>f \<in> set fs. af_name f = n \<and> af_meta f = m
           \<and> map_of (write_back fs attrs) n = Some (af_value f)"
proof -
  from nm obtain i where i: "i < length (array_decls cls)" "array_decls cls ! i = (n, m)"
    unfolding in_set_conv_nth by blast
  note len = all_array_fields_Inr_D(1)[OF fs]
  from i len have il: "i < length fs" by simp
  from all_array_fields_Inr_D(2)[OF fs il] i(2) obtain v where
    v: "map_of attrs n = Some v" "bind_field B n m v = Inr (fs ! i)" by auto
  from bind_Inr_D[OF v(2)] have nmf: "af_name (fs ! i) = n" "af_meta (fs ! i) = m" by simp_all
  from il have mem: "fs ! i \<in> set fs" by simp
  from write_back_bound[OF bound_names_distinct[OF d fs] mem] v(1) nmf
  have "map_of (write_back fs attrs) n = Some (af_value (fs ! i))" by simp
  with mem nmf show ?thesis by blast
qed

text \<open>
  C1, as amended. After a successful construction, the batch shape of the record is the
  host shape of every active field. When every declared field binds, the active fields
  share one engine and two of them have different host shapes, construction raises the
  \<open>ValueError\<close> of conflicting batch shapes, which lists each host shape with the names
  of its fields.
\<close>

theorem construction_batch_shape:
  assumes "distinct (map f_name (cls_fields cls))"
  shows "(post_init B cls attrs = Inr r \<longrightarrow>
           (\<forall>(n, m) \<in> set (array_decls cls). \<forall>v.
              dc_getattr r n = Inr v \<and> \<not> is_value_missing v \<longrightarrow>
              (\<exists>h. dc_shape r = Some h \<and> host_shape m v = Inr h)))
       \<and> (cls_frozen cls \<and> all_array_fields B cls attrs = Inr fs
            \<and> f1 \<in> set fs \<and> f2 \<in> set fs \<and> af_active f1 \<and> af_active f2
            \<and> host_shape (af_meta f1) (af_value f1) = Inr h1
            \<and> host_shape (af_meta f2) (af_value f2) = Inr h2 \<and> h1 \<noteq> h2
            \<and> (\<forall>f \<in> set fs. af_active f \<longrightarrow> af_xnp f = af_xnp f1) \<longrightarrow>
           (\<exists>g ns1 ns2. post_init B cls attrs = Inl (ValueError (ConflictingBatchShapes g))
              \<and> (h1, ns1) \<in> set g \<and> af_name f1 \<in> set ns1
              \<and> (h2, ns2) \<in> set g \<and> af_name f2 \<in> set ns2))"
proof (intro conjI impI)
  assume r: "post_init B cls attrs = Inr r"
  from post_init_Inr_D[OF r] obtain fs' where
    fs: "all_array_fields B cls attrs = Inr fs'"
    and rc: "dc_attrs r = write_back fs' attrs"
    and act: "\<forall>f \<in> set fs'. af_active f \<longrightarrow>
           af_xnp f = Some (dc_xnp r)
           \<and> (\<exists>h. dc_shape r = Some h \<and> host_shape (af_meta f) (af_value f) = Inr h)"
    by blast
  show "\<forall>(n, m) \<in> set (array_decls cls). \<forall>v.
              dc_getattr r n = Inr v \<and> \<not> is_value_missing v \<longrightarrow>
              (\<exists>h. dc_shape r = Some h \<and> host_shape m v = Inr h)"
  proof (intro ballI, clarify)
    fix n m v assume nm: "(n, m) \<in> set (array_decls cls)"
      and v: "dc_getattr r n = Inr v" "\<not> is_value_missing v"
    from bound_lookup[OF assms fs nm] obtain f where
      f: "f \<in> set fs'" "af_name f = n" "af_meta f = m"
        "map_of (write_back fs' attrs) n = Some (af_value f)" by blast
    from v(1) rc f(4) have "v = af_value f"
      by (simp add: dc_getattr_def)
    with act f v(2) show "\<exists>h. dc_shape r = Some h \<and> host_shape m v = Inr h" by auto
  qed
next
  assume a: "cls_frozen cls \<and> all_array_fields B cls attrs = Inr fs
            \<and> f1 \<in> set fs \<and> f2 \<in> set fs \<and> af_active f1 \<and> af_active f2
            \<and> host_shape (af_meta f1) (af_value f1) = Inr h1
            \<and> host_shape (af_meta f2) (af_value f2) = Inr h2 \<and> h1 \<noteq> h2
            \<and> (\<forall>f \<in> set fs. af_active f \<longrightarrow> af_xnp f = af_xnp f1)"
  then have fr: "cls_frozen cls" and fs: "all_array_fields B cls attrs = Inr fs"
    and f1: "f1 \<in> set fs" "af_active f1" "host_shape (af_meta f1) (af_value f1) = Inr h1"
    and f2: "f2 \<in> set fs" "af_active f2" "host_shape (af_meta f2) (af_value f2) = Inr h2"
    and ne: "h1 \<noteq> h2"
    and same0: "\<forall>f \<in> set fs. af_active f \<longrightarrow> af_xnp f = af_xnp f1"
    by blast+
  let ?af = "filter af_active fs"
  from f1 have fsne: "fs \<noteq> []" by auto
  from bound_active_normalized[OF fs f1(1,2)] obtain x1 where x1: "af_xnp f1 = Some x1" by blast
  have same: "\<forall>f \<in> set fs. af_active f \<longrightarrow> af_xnp f = Some x1"
  proof (intro ballI impI)
    fix f assume "f \<in> set fs" "af_active f"
    with same0 have "af_xnp f = af_xnp f1" by blast
    then show "af_xnp f = Some x1" by (simp only: x1)
  qed
  define hof where "hof f = (case host_shape (af_meta f) (af_value f) of Inr h \<Rightarrow> h | Inl _ \<Rightarrow> [])"
    for f :: "'a array_field"
  have hs_ok: "host_shape (af_meta f) (af_value f) = Inr (hof f)" if "f \<in> set ?af" for f
    using bound_active_normalized[OF fs, of f] that by (auto simp: hof_def)
  let ?xs = "map (\<lambda>f. (x1, af_name f)) ?af"
  let ?hs = "map (\<lambda>f. (hof f, af_name f)) ?af"
  have sx: "sequence (map (\<lambda>f. case af_xnp f of
                                          None \<Rightarrow> Inl (AttributeError (NoAttribute ''xnp''))
                                        | Some x \<Rightarrow> Inr (x, af_name f)) ?af) = Inr ?xs"
    using same by (intro sequence_map_cong_Inr) simp
  have sh: "sequence (map (\<lambda>f. case host_shape (af_meta f) (af_value f) of
                                                 Inl e \<Rightarrow> Inl e
                                               | Inr h \<Rightarrow> Inr (h, af_name f)) ?af) = Inr ?hs"
    using hs_ok by (intro sequence_map_cong_Inr) simp
  note u = post_init_unfold[OF fr fs fsne sx sh]
  have lx: "length (groupby fst snd ?xs) \<le> 1"
    unfolding groupby_length_le_1_iff by simp
  from f1 f2 have m1: "f1 \<in> set ?af" and m2: "f2 \<in> set ?af" by simp_all
  from hs_ok[OF m1] f1(3) have h1: "hof f1 = h1" by simp
  from hs_ok[OF m2] f2(3) have h2: "hof f2 = h2" by simp
  have p1: "(h1, af_name f1) \<in> set ?hs"
    unfolding set_map by (rule image_eqI[where x = f1]) (use h1 m1 in simp_all)
  have p2: "(h2, af_name f2) \<in> set ?hs"
    unfolding set_map by (rule image_eqI[where x = f2]) (use h2 m2 in simp_all)
  have lh: "\<not> length (groupby fst snd ?hs) \<le> 1"
  proof
    assume "length (groupby fst snd ?hs) \<le> 1"
    then have "\<forall>x \<in> set ?hs. \<forall>y \<in> set ?hs. fst x = fst y"
      by (simp only: groupby_length_le_1_iff)
    with p1 p2 have "fst (h1, af_name f1) = fst (h2, af_name f2)" by blast
    with ne show False by simp
  qed
  let ?g = "groupby fst snd ?hs"
  have res: "post_init B cls attrs = Inl (ValueError (ConflictingBatchShapes ?g))"
    using lx lh by (simp only: u) simp
  have k1: "h1 \<in> fst ` set ?hs" by (rule image_eqI[where x = "(h1, af_name f1)"]) (simp_all only: p1 fst_conv)
  have k2: "h2 \<in> fst ` set ?hs" by (rule image_eqI[where x = "(h2, af_name f2)"]) (simp_all only: p2 fst_conv)
  have g1: "map_of ?g h1 = Some (map snd (filter (\<lambda>p. fst p = h1) ?hs))"
    using k1 by (simp only: groupby_values if_True)
  have g2: "map_of ?g h2 = Some (map snd (filter (\<lambda>p. fst p = h2) ?hs))"
    using k2 by (simp only: groupby_values if_True)
  have n1: "af_name f1 \<in> set (map snd (filter (\<lambda>p. fst p = h1) ?hs))"
    unfolding set_map by (rule image_eqI[where x = "(h1, af_name f1)"]) (use p1 in simp_all)
  have n2: "af_name f2 \<in> set (map snd (filter (\<lambda>p. fst p = h2) ?hs))"
    unfolding set_map by (rule image_eqI[where x = "(h2, af_name f2)"]) (use p2 in simp_all)
  from res map_of_SomeD[OF g1] n1 map_of_SomeD[OF g2] n2
  show "\<exists>g ns1 ns2. post_init B cls attrs = Inl (ValueError (ConflictingBatchShapes g))
              \<and> (h1, ns1) \<in> set g \<and> af_name f1 \<in> set ns1
              \<and> (h2, ns2) \<in> set g \<and> af_name f2 \<in> set ns2"
    by blast
qed

lemma Square_distinct: "distinct (map f_name (cls_fields Square))"
  by (simp add: Square_def)

lemma Square_decls: "array_decls Square = [(''pos'', pos_meta), (''scale'', scale_meta)]"
  by (simp add: array_decls_def Square_def)

lemma square3_post_init:
  "post_init ex_engine Square [(''pos'', PArray pos3), (''scale'', PArray scale3)] = Inr square3"
  by code_simp

lemma square_conflict_bound:
  "all_array_fields ex_engine Square [(''pos'', PArray pos3), (''scale'', PArray scale4)] =
     Inr [\<lparr>af_name = ''pos'', af_meta = pos_meta, af_value = PArray pos3, af_xnp = Some NP\<rparr>,
          \<lparr>af_name = ''scale'', af_meta = scale_meta, af_value = PArray scale4, af_xnp = Some NP\<rparr>]"
  by code_simp

theorem construction_batch_shape_witness:
  "dc_shape square3 = Some [3]
   \<and> host_shape pos_meta (PArray pos3) = Inr [3]
   \<and> host_shape scale_meta (PArray scale3) = Inr [3]
   \<and> (\<exists>g ns1 ns2.
         post_init ex_engine Square [(''pos'', PArray pos3), (''scale'', PArray scale4)]
           = Inl (ValueError (ConflictingBatchShapes g))
         \<and> ([3], ns1) \<in> set g \<and> ''pos'' \<in> set ns1
         \<and> ([4], ns2) \<in> set g \<and> ''scale'' \<in> set ns2)"
proof -
  let ?f1 = "\<lparr>af_name = ''pos'', af_meta = pos_meta, af_value = PArray pos3, af_xnp = Some NP\<rparr>"
  let ?f2 = "\<lparr>af_name = ''scale'', af_meta = scale_meta, af_value = PArray scale4, af_xnp = Some NP\<rparr>"
  note t = construction_batch_shape[OF Square_distinct, of ex_engine _ _ _ ?f1 ?f2 "[3]" "[4]"]
  have a: "\<forall>(n, m) \<in> set (array_decls Square). \<forall>v.
              dc_getattr square3 n = Inr v \<and> \<not> is_value_missing v \<longrightarrow>
              (\<exists>h. dc_shape square3 = Some h \<and> host_shape m v = Inr h)"
    using t[of "[(''pos'', PArray pos3), (''scale'', PArray scale3)]" square3] square3_post_init
    by blast
  have g1: "dc_getattr square3 ''pos'' = Inr (PArray pos3) \<and> \<not> is_value_missing (PArray pos3 :: int pyval)"
    by (simp add: dc_getattr_def square3_def is_value_missing_def)
  have g2: "dc_getattr square3 ''scale'' = Inr (PArray scale3) \<and> \<not> is_value_missing (PArray scale3 :: int pyval)"
    by (simp add: dc_getattr_def square3_def is_value_missing_def)
  have s: "dc_shape square3 = Some [3]" by (simp add: square3_def)
  from a g1 s have h1: "host_shape pos_meta (PArray pos3) = Inr [3]"
    by (auto simp: Square_decls)
  from a g2 s have h2: "host_shape scale_meta (PArray scale3) = Inr [3]"
    by (auto simp: Square_decls)
  have b: "cls_frozen Square \<and> all_array_fields ex_engine Square [(''pos'', PArray pos3), (''scale'', PArray scale4)] = Inr [?f1, ?f2]
            \<and> ?f1 \<in> set [?f1, ?f2] \<and> ?f2 \<in> set [?f1, ?f2] \<and> af_active ?f1 \<and> af_active ?f2
            \<and> host_shape (af_meta ?f1) (af_value ?f1) = Inr [3]
            \<and> host_shape (af_meta ?f2) (af_value ?f2) = Inr [4] \<and> [3] \<noteq> [4::nat]
            \<and> (\<forall>f \<in> set [?f1, ?f2]. af_active f \<longrightarrow> af_xnp f = af_xnp ?f1)"
    using square_conflict_bound
    by (simp add: is_value_missing_def host_shape_def
          pos_meta_def scale_meta_def pos3_def scale4_def) (simp add: Square_def)
  from t[of "[(''pos'', PArray pos3), (''scale'', PArray scale4)]" _ "[?f1, ?f2]"] b
  have "\<exists>g ns1 ns2.
         post_init ex_engine Square [(''pos'', PArray pos3), (''scale'', PArray scale4)]
           = Inl (ValueError (ConflictingBatchShapes g))
         \<and> ([3], ns1) \<in> set g \<and> ''pos'' \<in> set ns1
         \<and> ([4], ns2) \<in> set g \<and> ''scale'' \<in> set ns2"
    by simp
  with s h1 h2 show ?thesis by blast
qed

text \<open>
  C1 as stated fails: with two engines and two host shapes, the engine check comes first
  and its error names the fields by engine, not by shape.
\<close>

theorem construction_conflict_counterexample:
  "host_shape pos_meta (PArray pos3) = Inr [3]
   \<and> host_shape scale_meta (PArray scale4_jnp) = Inr [4]
   \<and> dc_init ex_engine Square [(''pos'', PArray pos3), (''scale'', PArray scale4_jnp)]
       = Inl (ValueError (ConflictingNumpyTypes [(NP, [''pos'']), (JNP, [''scale''])]))"
  by code_simp

lemma post_init_factored:
  "post_init B cls attrs =
     (if \<not> cls_frozen cls then Inl (ValueError NotFrozenDataclass)
      else
        (case all_array_fields B cls attrs of
           Inl e \<Rightarrow> Inl e
         | Inr fs \<Rightarrow>
             if fs = [] then Inl (ValueError (NoArrayField (cls_name cls)))
             else
               (case check_fields (filter af_active fs) of
                  Inl e \<Rightarrow> Inl e
                | Inr (s, x) \<Rightarrow>
                    Inr (Dc cls (write_back fs attrs) s x
                           (map (\<lambda>f. (af_name f, af_meta f)) (filter af_active fs))))))"
  unfolding post_init_def check_fields_def Let_def
  by (simp split: sum.split list.split prod.split)


lemma bind_error_kind:
  "bind_field B n m v = Inl e \<Longrightarrow> e \<noteq> ValueError (NoArrayField c)"
  by (auto simp: bind_field_def init_array_def init_dataclass_def host_shape_def
        split: if_splits fdtype.splits pyval.splits sum.splits option.splits)

lemma host_shape_error_kind:
  "host_shape m v = Inl e \<Longrightarrow> e \<noteq> ValueError (NoArrayField c)"
  by (cases v) (auto simp: host_shape_def split: option.splits if_splits)

lemma check_fields_error_kind:
  fixes fs :: "'a array_field list"
  assumes "check_fields fs = Inl e"
  shows "e \<noteq> ValueError (NoArrayField c)"
proof -
  let ?fx = "\<lambda>f. case af_xnp f of
                                None \<Rightarrow> Inl (AttributeError (NoAttribute ''xnp''))
                              | Some x \<Rightarrow> Inr (x, af_name f)"
  let ?fh = "\<lambda>f. case host_shape (af_meta f) (af_value f) of
                                       Inl e \<Rightarrow> Inl e
                                     | Inr h \<Rightarrow> Inr (h, af_name f)"
  show ?thesis
  proof (cases "sequence (map ?fx fs)")
    case (Inl e')
    with assms have "e = e'" by (simp add: check_fields_def)
    moreover from sequence_Inl_elem[OF Inl] have "Inl e' \<in> ?fx ` set fs" by simp
    then obtain f :: "'a array_field" where "Inl e' = ?fx f" by (rule imageE)
    ultimately show ?thesis by (auto split: option.splits)
  next
    case (Inr xs)
    show ?thesis
    proof (cases "length (groupby fst snd xs) > 1")
      case True
      with assms Inr show ?thesis by (auto simp: check_fields_def)
    next
      case False
      show ?thesis
      proof (cases "sequence (map ?fh fs)")
        case (Inl e')
        with assms Inr False have "e = e'" by (simp add: check_fields_def)
        moreover from sequence_Inl_elem[OF Inl] have "Inl e' \<in> ?fh ` set fs" by simp
        then obtain f :: "'a array_field" where "Inl e' = ?fh f" by (rule imageE)
        ultimately show ?thesis
          by (auto split: sum.splits dest: host_shape_error_kind)
      next
        case (Inr hs)
        with assms \<open>sequence (map ?fx fs) = Inr xs\<close> False show ?thesis
          by (auto simp: check_fields_def split: if_splits list.splits prod.splits)
      qed
    qed
  qed
qed

lemma all_array_fields_error_kind:
  assumes "all_array_fields B cls attrs = Inl e"
  shows "e \<noteq> ValueError (NoArrayField c)"
proof -
  from sequence_Inl_elem[OF assms[unfolded all_array_fields_decls]]
  obtain n m where "Inl e = (case map_of attrs n of
                      None \<Rightarrow> Inl (AttributeError (NoAttribute n))
                    | Some v \<Rightarrow> bind_field B n m v)"
    by auto
  then show ?thesis by (auto split: option.splits dest: bind_error_kind[OF sym])
qed

lemma all_array_fields_Nil_iff:
  "all_array_fields B cls attrs = Inr [] \<longleftrightarrow> array_decls cls = []"
proof
  assume a: "all_array_fields B cls attrs = Inr []"
  from all_array_fields_Inr_D(1)[OF a] show "array_decls cls = []" by simp
next
  assume "array_decls cls = []"
  then show "all_array_fields B cls attrs = Inr []" by (simp add: all_array_fields_decls)
qed

text \<open>
  C2, as amended. Construction raises the \<open>ValueError\<close> asking for at least one array
  field exactly when the class declares no array field. When it declares some and the
  value of each is missing, construction succeeds: the record has no active field, its
  \<open>_shape\<close> is \<open>None\<close> and its engine is \<open>np\<close>.
\<close>

theorem all_missing_construction:
  assumes "cls_frozen cls"
  shows "(post_init B cls attrs = Inl (ValueError (NoArrayField (cls_name cls)))
            \<longleftrightarrow> array_decls cls = [])
       \<and> (array_decls cls \<noteq> []
            \<and> (\<forall>(n, m) \<in> set (array_decls cls). \<exists>v. map_of attrs n = Some v \<and> is_value_missing v)
          \<longrightarrow> (\<exists>r. post_init B cls attrs = Inr r
                 \<and> dc_shape r = None \<and> dc_xnp r = NP \<and> dc_active r = []))"
proof (intro conjI iffI impI)
  assume e: "post_init B cls attrs = Inl (ValueError (NoArrayField (cls_name cls)))"
  show "array_decls cls = []"
  proof (cases "all_array_fields B cls attrs")
    case (Inl e')
    with e assms have "e' = ValueError (NoArrayField (cls_name cls))"
      by (simp add: post_init_factored)
    with all_array_fields_error_kind[OF Inl] show ?thesis by blast
  next
    case (Inr fs)
    show ?thesis
    proof (cases "fs = []")
      case True
      with Inr show ?thesis by (simp add: all_array_fields_Nil_iff)
    next
      case False
      show ?thesis
      proof (cases "check_fields (filter af_active fs)")
        case (Inl e')
        with e assms Inr False have "e' = ValueError (NoArrayField (cls_name cls))"
          by (simp add: post_init_factored)
        with check_fields_error_kind[OF Inl] show ?thesis by blast
      next
        case (Inr sx)
        with e assms \<open>all_array_fields B cls attrs = Inr fs\<close> False show ?thesis
          by (simp add: post_init_factored split: prod.splits)
      qed
    qed
  qed
next
  assume "array_decls cls = []"
  then have "all_array_fields B cls attrs = Inr []" by (simp add: all_array_fields_Nil_iff)
  with assms show "post_init B cls attrs = Inl (ValueError (NoArrayField (cls_name cls)))"
    by (simp add: post_init_factored)
next
  assume a: "array_decls cls \<noteq> []
            \<and> (\<forall>(n, m) \<in> set (array_decls cls). \<exists>v. map_of attrs n = Some v \<and> is_value_missing v)"
  from all_missing_bound[of cls attrs B] a obtain fs where
    fs: "all_array_fields B cls attrs = Inr fs" "length fs = length (array_decls cls)"
      "filter af_active fs = []"
    by blast
  from fs(2) a have ne: "fs \<noteq> []" by auto
  from post_init_all_missing[OF assms fs(1) ne fs(3)]
  show "\<exists>r. post_init B cls attrs = Inr r
                 \<and> dc_shape r = None \<and> dc_xnp r = NP \<and> dc_active r = []"
    by simp
qed

theorem all_missing_construction_witness:
  "cls_frozen Square \<and> array_decls Square \<noteq> []
   \<and> (\<exists>r. post_init ex_engine Square [(''pos'', PNone), (''scale'', PObject)] = Inr r
          \<and> dc_shape r = None \<and> dc_xnp r = NP \<and> dc_active r = [])"
proof -
  have fr: "cls_frozen Square" by (simp add: Square_def)
  have a: "array_decls Square \<noteq> []
            \<and> (\<forall>(n, m) \<in> set (array_decls Square).
                  \<exists>v. map_of [(''pos'', PNone), (''scale'', PObject :: int pyval)] n = Some v
                     \<and> is_value_missing v)"
    by (simp add: Square_decls is_value_missing_def)
  from all_missing_construction[OF fr, of ex_engine "[(''pos'', PNone), (''scale'', PObject)]"] a fr
  show ?thesis by blast
qed

text \<open>
  C2 as stated fails: the class of the docstring called with no argument gives a record
  of which every field is \<open>None\<close>.
\<close>

theorem all_missing_construction_counterexample:
  "dc_init ex_engine Square [] =
     Inr (Dc Square [(''pos'', PNone), (''scale'', PNone)] None NP [])"
  by code_simp

lemma sequence_map_sum:
  "sequence (map (map_sum id g) rs) = map_sum id (map g) (sequence rs)"
proof (induction rs)
  case Nil
  then show ?case by simp
next
  case (Cons r rs)
  then show ?case by (cases r; cases "sequence rs") simp_all
qed

lemma normalized_not_object: "normalized m h x v \<Longrightarrow> v \<noteq> PObject"
  by (auto simp: normalized_def)

lemma object_as_none_missing [simp]:
  "is_value_missing (object_as_none v) = is_value_missing v"
  by (simp add: object_as_none_def is_value_missing_def)

lemma bind_object_as_none:
  "bind_field B n m (object_as_none v) =
     map_sum id (\<lambda>f. f\<lparr>af_value := object_as_none (af_value f)\<rparr>) (bind_field B n m v)"
proof (cases "v = PObject")
  case True
  then show ?thesis
    by (simp add: object_as_none_def bind_missing is_value_missing_def)
next
  case False
  then have v: "object_as_none v = v" by (simp add: object_as_none_def)
  show ?thesis
  proof (cases "bind_field B n m v")
    case (Inl e)
    with v show ?thesis by simp
  next
    case (Inr f)
    from bind_Inr_D[OF Inr] False have "af_value f \<noteq> PObject"
      by (cases "is_value_missing v") (auto dest: normalized_not_object)
    then have "f\<lparr>af_value := object_as_none (af_value f)\<rparr> = f"
      by (simp add: object_as_none_def)
    with Inr v show ?thesis by simp
  qed
qed

lemma all_array_fields_object_as_none:
  "all_array_fields B cls (map (\<lambda>(n, v). (n, object_as_none v)) attrs) =
     map_sum id (map (\<lambda>f. f\<lparr>af_value := object_as_none (af_value f)\<rparr>))
       (all_array_fields B cls attrs)"
proof -
  let ?upd = "\<lambda>f :: 'a array_field. f\<lparr>af_value := object_as_none (af_value f)\<rparr>"
  have "(\<lambda>(n, m). case map_of (map (\<lambda>(n, v). (n, object_as_none v)) attrs) n of
                      None \<Rightarrow> Inl (AttributeError (NoAttribute n))
                    | Some v \<Rightarrow> bind_field B n m v)
        = (\<lambda>nm. map_sum id ?upd ((\<lambda>(n, m). case map_of attrs n of
                      None \<Rightarrow> Inl (AttributeError (NoAttribute n))
                    | Some v \<Rightarrow> bind_field B n m v) nm))"
    by (rule ext) (auto simp: map_of_map bind_object_as_none split: option.splits)
  then show ?thesis
    by (simp only: all_array_fields_decls sequence_map_sum[symmetric] map_map o_def)
qed

lemma filter_active_object_as_none:
  "filter af_active (map (\<lambda>f. f\<lparr>af_value := object_as_none (af_value f)\<rparr>) fs)
     = filter af_active fs"
  by (induction fs) (auto simp: object_as_none_def is_value_missing_def)

section \<open>Properties: stacking different types\<close>

lemma square_a_constructed:
  "dc_init ex_engine Square
     [(''pos'', PArray (NDArray NP float32 [2] [1, 2])),
      (''scale'', PArray (NDArray NP float32 [] [7]))] = Inr square_a"
  by code_simp

lemma circle_b_constructed:
  "dc_init ex_engine Circle
     [(''pos'', PArray (NDArray NP float32 [2] [3, 4])),
      (''scale'', PArray (NDArray NP float32 [] [8]))] = Inr circle_b"
  by code_simp

lemma stack_type_check_never_raises:
  "KeyBool False \<notin> set (map fst (groupby (\<lambda>x. KeyType (type_of x)) val arrays))"
  by (simp only: groupby_keys) auto

text \<open>
  C3. \<open>stack\<close> must raise \<open>TypeError\<close> on records of different types. The code groups
  the records by type and tests \<open>False in types\<close>, which no dict of types satisfies:
  stacking a \<open>Square\<close> and a \<open>Circle\<close> returns a \<open>Square\<close> of batch shape \<open>(2,)\<close>.
\<close>

theorem stack_mixed_types_no_error:
  "dc_cls square_a \<noteq> dc_cls circle_b
   \<and> stack ex_engine [PDc square_a, PDc circle_b] 0 =
       Inr (Dc Square [(''pos'', PArray (NDArray NP float32 [2, 2] [1, 2, 3, 4])),
                       (''scale'', PArray (NDArray NP float32 [2] [7, 8]))] (Some [2]) NP
              [(''pos'', pos_meta), (''scale'', scale_meta)])"
  by code_simp

section \<open>Properties: the tree protocol\<close>


lemma square3_constructed:
  "dc_init ex_engine Square [(''pos'', PArray pos3), (''scale'', PArray scale3)] = Inr square3"
  by code_simp




subsection \<open>Iteration and stacking\<close>

declare valid.simps [simp del]
declare dc_iter.simps [simp del]
declare stack.simps [simp del]
declare pyzip.simps [simp del]
declare dc_getitem.simps [simp del]

lemma concat_chunks:
  "concat (map (\<lambda>i. take k (drop (i * k) xs)) [0..<n]) = take (n * k) xs"
proof (induction n)
  case 0
  then show ?case by simp
next
  case (Suc n)
  have "take (n * k) xs @ take k (drop (n * k) xs) = take (n * k + k) xs"
    by (simp add: take_add)
  with Suc show ?case by (simp add: add.commute)
qed

lemma those_map_Some: "those (map Some xs) = Some xs"
  by (induction xs) auto

lemma nd_iter_rows:
  "nd_shape a = n # sh \<Longrightarrow> nd_iter a = Inr (map (nd_row a) [0..<n])"
  by (simp add: nd_iter_def)

lemma nd_row_sel [simp]:
  "nd_xnp (nd_row a i) = nd_xnp a"
  "nd_dtype (nd_row a i) = nd_dtype a"
  "nd_shape (nd_row a i) = tl (nd_shape a)"
  by (simp_all add: nd_row_def Let_def)

lemma nd_stack_rows:
  assumes sh: "nd_shape a = n # sh" and len: "length (nd_data a) = prod_list (nd_shape a)"
    and n: "0 < n" and x: "nd_xnp a = x"
  shows "nd_stack B x (map (\<lambda>i. PArray (nd_row a i)) [0..<n]) = Inr (PArray a)"
proof -
  let ?rows = "map (nd_row a) [0..<n]"
  have th: "those (map array_of (map (\<lambda>i. PArray (nd_row a i)) [0..<n])) = Some ?rows"
    using those_map_Some[of ?rows] by (simp add: o_def)
  from n obtain n' where n': "n = Suc n'" by (cases n) auto
  have rows: "?rows = nd_row a 0 # map (nd_row a) [1..<n]"
    using n by (simp add: upt_conv_Cons)
  have same: "\<forall>b \<in> set (map (nd_row a) [1..<n]). nd_shape b = nd_shape (nd_row a 0)
                \<and> nd_dtype b = nd_dtype (nd_row a 0)"
    by auto
  have data: "concat (map nd_data ?rows) = nd_data a"
  proof -
    have "concat (map nd_data ?rows)
          = concat (map (\<lambda>i. take (prod_list sh) (drop (i * prod_list sh) (nd_data a))) [0..<n])"
      using sh by (simp add: nd_row_def Let_def o_def)
    also have "\<dots> = take (n * prod_list sh) (nd_data a)" by (rule concat_chunks)
    also have "\<dots> = nd_data a" using len sh by simp
    finally show ?thesis .
  qed
  have "nd_stack B x (map (\<lambda>i. PArray (nd_row a i)) [0..<n])
        = Inr (PArray (NDArray x (nd_dtype (nd_row a 0)) (length ?rows # nd_shape (nd_row a 0))
                        (concat (map nd_data ?rows))))"
    unfolding nd_stack_def th using same by (simp add: rows)
  also have "\<dots> = Inr (PArray a)"
    unfolding data using sh x by (cases a) simp
  finally show ?thesis .
qed

lemma zip_heads_Inr:
  "\<forall>c \<in> set cols. c \<noteq> [] \<Longrightarrow> zip_heads (map (map Inr) cols) = Some (Inr (map hd cols))"
proof (induction cols)
  case Nil
  then show ?case by simp
next
  case (Cons c cols)
  then show ?case by (cases c) auto
qed

lemma pyzip_Inr:
  "cols \<noteq> [] \<Longrightarrow> \<forall>c \<in> set cols. length c = n \<Longrightarrow>
   pyzip (map (map (Inr :: 'x \<Rightarrow> 'e + 'x)) cols) = map (\<lambda>i. Inr (map (\<lambda>c. c ! i) cols)) [0..<n]"
proof (induction n arbitrary: cols)
  case 0
  then obtain c cs where "cols = c # cs" "c = []" by (cases cols) auto
  then show ?case by (subst pyzip.simps) simp
next
  case (Suc n)
  then have ne: "\<forall>c \<in> set cols. c \<noteq> []" by auto
  have tl: "map tl (map (map (Inr :: 'x \<Rightarrow> 'e + 'x)) cols) = map (map Inr) (map tl cols)"
    by (simp add: map_tl)
  have "map tl cols \<noteq> []" "\<forall>c \<in> set (map tl cols). length c = n"
    using Suc.prems by auto
  note ih0 = Suc.IH[OF this]
  have eq: "map (\<lambda>i. Inr (map (\<lambda>c. c ! i) (map tl cols))) [0..<n]
            = map (\<lambda>i. Inr (map (\<lambda>c. c ! Suc i) cols)) [0..<n]"
  proof (rule map_cong[OF refl])
    fix i assume "i \<in> set [0..<n]"
    then have i: "i < n" by simp
    have "map (\<lambda>c. c ! i) (map tl cols) = map (\<lambda>c. c ! Suc i) cols"
      unfolding map_map o_def
    proof (rule map_cong[OF refl])
      fix c assume "c \<in> set cols"
      then have "length c = Suc n" using Suc.prems(2) by blast
      with i show "tl c ! i = c ! Suc i" by (simp add: nth_tl)
    qed
    then show "Inr (map (\<lambda>c. c ! i) (map tl cols)) = Inr (map (\<lambda>c. c ! Suc i) cols)"
      by simp
  qed
  note ih = ih0[unfolded eq]
  have hd: "map hd cols = map (\<lambda>c. c ! 0) cols"
    using ne by (simp add: hd_conv_nth)
  have "pyzip (map (map (Inr :: 'x \<Rightarrow> 'e + 'x)) cols)
        = Inr (map hd cols) # pyzip (map tl (map (map (Inr :: 'x \<Rightarrow> 'e + 'x)) cols))"
    using Suc.prems(1) by (subst pyzip.simps) (simp add: zip_heads_Inr[OF ne])
  also have "\<dots> = Inr (map (\<lambda>c. c ! 0) cols) # map (\<lambda>i. Inr (map (\<lambda>c. c ! Suc i) cols)) [0..<n]"
    by (simp only: tl ih hd)
  also have "\<dots> = map (\<lambda>i. Inr (map (\<lambda>c. c ! i) cols)) [0..<Suc n]"
    by (simp add: upt_conv_Cons map_Suc_upt[symmetric] o_def del: upt_Suc)
  finally show ?case .
qed


lemma post_init_normalized:
  assumes fr: "cls_frozen cls" and d: "distinct (map fst A)"
    and vals: "\<forall>(n, m) \<in> set (array_decls cls). \<exists>v. map_of A n = Some v
                 \<and> (is_value_missing v \<or> normalized m h x v)"
    and one: "\<exists>(n, m) \<in> set (array_decls cls). \<exists>v. map_of A n = Some v \<and> \<not> is_value_missing v"
  shows "post_init B cls A =
     Inr (Dc cls A (Some h) x
            (filter (\<lambda>(n, m). \<not> is_value_missing (case map_of A n of Some v \<Rightarrow> v | None \<Rightarrow> PNone))
               (array_decls cls)))"
proof -
  define val where "val n = (case map_of A n of Some v \<Rightarrow> v | None \<Rightarrow> PNone)" for n
  define g where "g nm = \<lparr>af_name = fst nm, af_meta = snd nm, af_value = val (fst nm),
      af_xnp = (if is_value_missing (val (fst nm)) then None else Some x)\<rparr>"
    for nm :: "string \<times> field_meta"
  have v: "map_of A (fst nm) = Some (val (fst nm))
           \<and> (is_value_missing (val (fst nm)) \<or> normalized (snd nm) h x (val (fst nm)))"
    if "nm \<in> set (array_decls cls)" for nm
    using vals that by (cases nm) (auto simp: val_def)
  have "(case nm of (n, m) \<Rightarrow> case map_of A n of
                      None \<Rightarrow> Inl (AttributeError (NoAttribute n))
                    | Some v \<Rightarrow> bind_field B n m v) = Inr (g nm)"
    if "nm \<in> set (array_decls cls)" for nm
  proof (cases "is_value_missing (val (fst nm))")
    case True
    with v[OF that] show ?thesis by (cases nm) (simp add: g_def bind_missing)
  next
    case False
    with v[OF that] have "normalized (snd nm) h x (val (fst nm))" by blast
    from bind_normalized[OF this, of B "fst nm"] v[OF that] False
    show ?thesis by (cases nm) (simp add: g_def)
  qed
  then have fs: "all_array_fields B cls A = Inr (map g (array_decls cls))"
    unfolding all_array_fields_decls by (rule sequence_map_cong_Inr)
  from one have ne: "map g (array_decls cls) \<noteq> []" by auto
  have act: "\<forall>f \<in> set (map g (array_decls cls)). af_active f \<longrightarrow>
               af_xnp f = Some x \<and> host_shape (af_meta f) (af_value f) = Inr h"
  proof
    fix f assume "f \<in> set (map g (array_decls cls))"
    then obtain nm where nm: "nm \<in> set (array_decls cls)" "f = g nm" by auto
    show "af_active f \<longrightarrow> af_xnp f = Some x \<and> host_shape (af_meta f) (af_value f) = Inr h"
    proof
      assume "af_active f"
      with nm have nmis: "\<not> is_value_missing (val (fst nm))" by (simp add: g_def)
      with v[OF nm(1)] have "normalized (snd nm) h x (val (fst nm))" by blast
      from host_shape_normalized[OF this] nmis nm(2)
      show "af_xnp f = Some x \<and> host_shape (af_meta f) (af_value f) = Inr h"
        by (simp add: g_def)
    qed
  qed
  have filt: "map (\<lambda>f. (af_name f, af_meta f)) (filter af_active (map g (array_decls cls)))
        = filter (\<lambda>(n, m). \<not> is_value_missing (val n)) (array_decls cls)"
    by (induction "array_decls cls") (auto simp: g_def filter_map o_def case_prod_beta)
  from one obtain nm where "nm \<in> set (array_decls cls)" "\<not> is_value_missing (val (fst nm))"
    by (auto simp: val_def)
  then have "nm \<in> set (filter (\<lambda>(n, m). \<not> is_value_missing (val n)) (array_decls cls))"
    by (cases nm) auto
  then have ne2: "filter af_active (map g (array_decls cls)) \<noteq> []"
    using filt by (metis empty_iff list.set(1) list.simps(8))
  have "map_of A (af_name f) = Some (af_value f)" if "f \<in> set (map g (array_decls cls))" for f
    using that v by (auto simp: g_def)
  then have wb: "write_back (map g (array_decls cls)) A = A"
    by (intro write_back_id[OF d]) blast
  from post_init_Inr_I[OF fr fs ne act ne2]
  show ?thesis unfolding wb filt val_def .
qed

lemma replace_eq:
  assumes d: "distinct (map f_name (cls_fields (dc_cls r)))"
    and keys: "map fst (dc_attrs r) = map f_name (cls_fields (dc_cls r))"
    and ns: "distinct ns" "set ns \<subseteq> f_name ` set (filter f_init (cls_fields (dc_cls r)))"
    and ni: "\<forall>f \<in> set (cls_fields (dc_cls r)).
               \<not> f_init f \<longrightarrow> f_has_default f \<and> attr_of r (f_name f) = PNone"
  shows "replace B r (py_dict (zip ns (map h ns)))
         = post_init B (dc_cls r)
             (map (\<lambda>f. (f_name f, if f_name f \<in> set ns then h (f_name f)
                                    else attr_of r (f_name f))) (cls_fields (dc_cls r)))"
proof -
  let ?cls = "dc_cls r"
  let ?F = "cls_fields ?cls"
  let ?akw = "zip ns (map h ns)"
  let ?keep = "filter (\<lambda>f. f_init f \<and> f_name f \<notin> set ns) ?F"
  let ?rest = "map (\<lambda>f. (f_name f, attr_of r (f_name f))) ?keep"
  have keys_a: "map fst ?akw = ns" by simp
  have pd: "py_dict ?akw = ?akw"
    by (rule py_dict_distinct) (simp only: keys_a ns(1))
  have inj: "inj_on f_name (set ?F)" using d by (simp add: distinct_map)
  have init_of: "f_init f" if "f \<in> set ?F" "f_name f \<in> set ns" for f
  proof -
    from that(2) ns(2) obtain f' where f': "f' \<in> set ?F" "f_init f'" "f_name f' = f_name f"
      by auto
    from inj_onD[OF inj f'(3) f'(1) that(1)] f'(2) show ?thesis by simp
  qed
  have nf: "find (\<lambda>f. \<not> f_init f \<and> f_name f \<in> set ns) ?F = None"
    unfolding find_None_iff using init_of by blast
  have ks: "fst ` set (dc_attrs r) = f_name ` set ?F"
    using arg_cong[OF keys, of set] by simp
  have sq: "sequence (map (\<lambda>f. case dc_getattr r (f_name f) of
                                     Inl e \<Rightarrow> Inl e
                                   | Inr v \<Rightarrow> Inr (f_name f, v)) ?keep) = Inr ?rest"
  proof (rule sequence_map_cong_Inr)
    fix f assume "f \<in> set ?keep"
    then have "f_name f \<in> fst ` set (dc_attrs r)" unfolding ks by simp
    from getattr_attr_of[OF this]
    show "(case dc_getattr r (f_name f) of Inl e \<Rightarrow> Inl e | Inr v \<Rightarrow> Inr (f_name f, v))
          = Inr (f_name f, attr_of r (f_name f))" by simp
  qed
  have keys_r: "map fst ?rest = map f_name ?keep" by (simp add: o_def)
  have sub: "set (map fst (?akw @ ?rest)) \<subseteq> set (map f_name (filter f_init ?F))"
    unfolding map_append keys_a keys_r using ns(2) by auto
  have cov: "\<forall>f \<in> set ?F. \<not> f_init f \<or> f_has_default f
               \<or> f_name f \<in> set (map fst (?akw @ ?rest))"
    unfolding map_append keys_a keys_r by auto
  from ni have ai': "\<forall>f \<in> set ?F. f_init f \<or> f_has_default f" by blast
  have mrest: "map_of ?rest n = (if n \<in> f_name ` set ?keep then Some (attr_of r n) else None)"
    for n by (rule map_of_map_key)
  have look: "(if f_init f
               then (case map_of (?akw @ ?rest) (f_name f) of Some v \<Rightarrow> v | None \<Rightarrow> PNone)
               else PNone)
         = (if f_name f \<in> set ns then h (f_name f) else attr_of r (f_name f))"
    if f: "f \<in> set ?F" for f
  proof (cases "f_name f \<in> set ns")
    case True
    with init_of[OF f] show ?thesis by (simp add: map_of_zip_map)
  next
    case False
    show ?thesis
    proof (cases "f_init f")
      case True
      with f False have "f_name f \<in> f_name ` set ?keep" by simp
      with False True show ?thesis by (simp add: map_of_zip_map map_add_def mrest)
    next
      case nin: False
      with ni f have "attr_of r (f_name f) = PNone" by blast
      with False nin show ?thesis by simp
    qed
  qed
  have ia: "init_attrs ?cls (?akw @ ?rest)
        = map (\<lambda>f. (f_name f, if f_name f \<in> set ns then h (f_name f) else attr_of r (f_name f)))
            ?F"
    unfolding init_attrs_map[OF ai'] using look by (intro map_cong) auto
  have "replace B r (py_dict ?akw) = dc_init B ?cls (?akw @ ?rest)"
    unfolding replace_def pd keys_a nf sq by simp
  also have "\<dots> = post_init B ?cls (init_attrs ?cls (?akw @ ?rest))"
    by (rule dc_init_eq[OF sub cov])
  finally show ?thesis by (simp only: ia)
qed

lemma valid_D:
  assumes "valid B r"
  shows "distinct (map f_name (cls_fields (dc_cls r)))"
    and "map fst (dc_attrs r) = map f_name (cls_fields (dc_cls r))"
    and "post_init B (dc_cls r) (dc_attrs r) = Inr r"
    and "\<forall>f \<in> set (cls_fields (dc_cls r)).
           \<not> f_init f \<longrightarrow> f_has_default f \<and> attr_of r (f_name f) = PNone"
  using assms by (simp_all add: valid.simps)

lemma valid_nested:
  assumes "valid B r" "(n, m) \<in> set (dc_active r)"
  shows "dc_getattr r n = Inr (PArray a) \<Longrightarrow> length (nd_data a) = prod_list (nd_shape a)"
    and "dc_getattr r n = Inr (PDc d) \<Longrightarrow> valid B d"
proof -
  from assms have all: "\<forall>(n, m) \<in> set (dc_active r).
           case dc_getattr r n of
             Inr (PArray a) \<Rightarrow> length (nd_data a) = prod_list (nd_shape a)
           | Inr (PDc d) \<Rightarrow> valid B d
           | _ \<Rightarrow> True"
    by (subst (asm) valid.simps) blast
  from all assms(2) have c: "case dc_getattr r n of
             Inr (PArray a) \<Rightarrow> length (nd_data a) = prod_list (nd_shape a)
           | Inr (PDc d) \<Rightarrow> valid B d
           | _ \<Rightarrow> True" by blast
  from c show "dc_getattr r n = Inr (PArray a) \<Longrightarrow> length (nd_data a) = prod_list (nd_shape a)"
    by simp
  from c show "dc_getattr r n = Inr (PDc d) \<Longrightarrow> valid B d" by simp
qed

lemma valid_bound:
  assumes v: "valid B r"
  shows "\<exists>fs. all_array_fields B (dc_cls r) (dc_attrs r) = Inr fs
     \<and> cls_frozen (dc_cls r)
     \<and> dc_active r = map (\<lambda>f. (af_name f, af_meta f)) (filter af_active fs)
     \<and> (\<forall>f \<in> set fs. af_value f = attr_of r (af_name f))
     \<and> (\<forall>f \<in> set fs. af_active f \<longrightarrow>
           af_xnp f = Some (dc_xnp r)
           \<and> (\<exists>h. dc_shape r = Some h \<and> host_shape (af_meta f) (af_value f) = Inr h))
     \<and> (filter af_active fs = [] \<longrightarrow> dc_shape r = None)"
proof -
  note d = valid_D(1)[OF v] and keys = valid_D(2)[OF v] and pi = valid_D(3)[OF v]
  from post_init_Inr_D[OF pi] obtain fs where fr: "cls_frozen (dc_cls r)"
    and fs: "all_array_fields B (dc_cls r) (dc_attrs r) = Inr fs"
    and wb: "dc_attrs r = write_back fs (dc_attrs r)"
    and ac: "dc_active r = map (\<lambda>f. (af_name f, af_meta f)) (filter af_active fs)"
    and act: "\<forall>f \<in> set fs. af_active f \<longrightarrow>
           af_xnp f = Some (dc_xnp r)
           \<and> (\<exists>h. dc_shape r = Some h \<and> host_shape (af_meta f) (af_value f) = Inr h)"
    and emp: "filter af_active fs = [] \<longrightarrow> dc_shape r = None \<and> dc_xnp r = NP"
    by blast
  note dn = bound_names_distinct[OF d fs]
  note nm = all_array_fields_names[OF fs]
  have val: "af_value f = attr_of r (af_name f)" if f: "f \<in> set fs" for f
  proof -
    from f have "(af_name f, af_meta f) \<in> set (map (\<lambda>f. (af_name f, af_meta f)) fs)"
      by (intro image_eqI[where x = f, THEN subst[OF set_map[symmetric], of "\<lambda>S. _ \<in> S"]]) simp_all
    then have "(af_name f, af_meta f) \<in> set (array_decls (dc_cls r))" unfolding nm .
    then have "af_name f \<in> fst ` set (array_decls (dc_cls r))"
      by (rule image_eqI[rotated]) simp
    with array_decls_names[of "dc_cls r"] have "af_name f \<in> f_name ` set (cls_fields (dc_cls r))"
      by blast
    then have "af_name f \<in> set (map fst (dc_attrs r))" unfolding keys by simp
    then obtain v where "map_of (dc_attrs r) (af_name f) = Some v"
      by (cases "map_of (dc_attrs r) (af_name f)") (auto simp: map_of_eq_None_iff)
    from write_back_bound[OF dn f this]
    have "map_of (write_back fs (dc_attrs r)) (af_name f) = Some (af_value f)" .
    then have "map_of (dc_attrs r) (af_name f) = Some (af_value f)"
      using wb by simp
    then show ?thesis by (simp add: attr_of_def)
  qed
  from fr fs ac val act emp show ?thesis by blast
qed

lemma valid_active:
  assumes v: "valid B r"
  shows "dc_active r = filter (\<lambda>(n, m). \<not> is_value_missing (attr_of r n)) (array_decls (dc_cls r))"
proof -
  from valid_bound[OF v] obtain fs where
    fs: "all_array_fields B (dc_cls r) (dc_attrs r) = Inr fs"
    and ac: "dc_active r = map (\<lambda>f. (af_name f, af_meta f)) (filter af_active fs)"
    and val: "\<forall>f \<in> set fs. af_value f = attr_of r (af_name f)"
    by blast
  note nm = all_array_fields_names[OF fs]
  have "filter af_active fs = filter (\<lambda>f. \<not> is_value_missing (attr_of r (af_name f))) fs"
    using val by (intro filter_cong) auto
  then have "dc_active r = map (\<lambda>f. (af_name f, af_meta f))
                (filter (\<lambda>f. \<not> is_value_missing (attr_of r (af_name f))) fs)"
    using ac by simp
  also have "\<dots> = filter (\<lambda>(n, m). \<not> is_value_missing (attr_of r n))
                 (map (\<lambda>f. (af_name f, af_meta f)) fs)"
    by (simp add: filter_map o_def)
  finally show ?thesis unfolding nm .
qed

lemma valid_normalized:
  assumes v: "valid B r" and a: "(n, m) \<in> set (dc_active r)"
  shows "\<exists>h. dc_shape r = Some h \<and> normalized m h (dc_xnp r) (attr_of r n)"
proof -
  from valid_bound[OF v] obtain fs where
    fs: "all_array_fields B (dc_cls r) (dc_attrs r) = Inr fs"
    and ac: "dc_active r = map (\<lambda>f. (af_name f, af_meta f)) (filter af_active fs)"
    and val: "\<forall>f \<in> set fs. af_value f = attr_of r (af_name f)"
    and act: "\<forall>f \<in> set fs. af_active f \<longrightarrow>
           af_xnp f = Some (dc_xnp r)
           \<and> (\<exists>h. dc_shape r = Some h \<and> host_shape (af_meta f) (af_value f) = Inr h)"
    by blast
  from a obtain f where f: "f \<in> set fs" "af_active f" "af_name f = n" "af_meta f = m"
    unfolding ac by auto
  from bound_active_normalized[OF fs f(1,2)] obtain h x where
    n: "normalized (af_meta f) h x (af_value f)" "af_xnp f = Some x"
       "host_shape (af_meta f) (af_value f) = Inr h" by blast
  from act f(1,2) obtain h' where "af_xnp f = Some (dc_xnp r)" "dc_shape r = Some h'"
    "host_shape (af_meta f) (af_value f) = Inr h'" by blast
  with n have "x = dc_xnp r" "dc_shape r = Some h" by simp_all
  with n(1) val f show ?thesis by auto
qed

lemma valid_active_nonempty:
  fixes r :: "'a dc"
  assumes v: "valid B r" and s: "dc_shape r = Some h"
  shows "dc_active r \<noteq> []"
proof -
  from valid_bound[OF v] obtain fs :: "'a array_field list" where
    ac: "dc_active r = map (\<lambda>f. (af_name f, af_meta f)) (filter af_active fs)"
    and emp: "filter af_active fs = [] \<longrightarrow> dc_shape r = None"
    by blast
  with s show ?thesis by auto
qed

lemma valid_active_names:
  assumes v: "valid B r"
  shows "distinct (map fst (dc_active r))"
    and "fst ` set (dc_active r) \<subseteq> f_name ` set (cls_fields (dc_cls r))"
    and "set (dc_active r) \<subseteq> set (array_decls (dc_cls r))"
proof -
  note ac = valid_active[OF v]
  show "distinct (map fst (dc_active r))"
    unfolding ac by (rule distinct_map_filter) (rule array_decls_distinct[OF valid_D(1)[OF v]])
  show sub: "set (dc_active r) \<subseteq> set (array_decls (dc_cls r))"
    unfolding ac by auto
  with array_decls_names[of "dc_cls r"]
  show "fst ` set (dc_active r) \<subseteq> f_name ` set (cls_fields (dc_cls r))" by blast
qed

lemma valid_getattr:
  assumes v: "valid B r" and a: "(n, m) \<in> set (dc_active r)"
  shows "dc_getattr r n = Inr (attr_of r n)"
proof -
  from a have "n \<in> fst ` set (dc_active r)" by (rule image_eqI[rotated]) simp
  with valid_active_names(2)[OF v] have "n \<in> f_name ` set (cls_fields (dc_cls r))" by blast
  then have "n \<in> fst ` set (dc_attrs r)"
    using valid_D(2)[OF v] by (metis set_map)
  then show ?thesis by (rule getattr_attr_of)
qed


lemma dc_iter_unfold:
  assumes tr: "shape_truthy (dc_shape d)"
    and ne: "dc_active d \<noteq> []"
    and ga: "\<And>nm m. (nm, m) \<in> set (dc_active d) \<Longrightarrow> dc_getattr d nm = Inr (val nm)"
    and cols: "\<And>nm m. (nm, m) \<in> set (dc_active d) \<Longrightarrow>
        (case dc_getattr d nm of
           Inl e \<Rightarrow> Inl e
         | Inr PNone \<Rightarrow> Inl (TypeError NotIterable)
         | Inr PObject \<Rightarrow> Inl (TypeError NotIterable)
         | Inr (PArray a) \<Rightarrow>
             (case nd_iter a of
                Inl e \<Rightarrow> Inl e
              | Inr rows \<Rightarrow> Inr (map (\<lambda>r. Inr (PArray r)) rows))
         | Inr (PDc d') \<Rightarrow>
             Inr (map (\<lambda>r. case r of Inl e \<Rightarrow> Inl e | Inr x \<Rightarrow> Inr (PDc x)) (dc_iter B d')))
        = Inr (map Inr (col nm))"
    and len: "\<And>nm m. (nm, m) \<in> set (dc_active d) \<Longrightarrow> length (col nm) = n"
  shows "dc_iter B d =
     map (\<lambda>i. replace B d (py_dict (zip (map fst (dc_active d))
                                         (map (\<lambda>nm. col nm ! i) (map fst (dc_active d))))))
       [0..<n]"
proof -
  have s1: "sequence (map (\<lambda>(n, m). dc_getattr d n) (dc_active d))
            = Inr (map (\<lambda>(n, m). val n) (dc_active d))"
    by (rule sequence_map_cong_Inr) (use ga in auto)
  have s2: "sequence (map (\<lambda>(nm, m).
        (case dc_getattr d nm of
           Inl e \<Rightarrow> Inl e
         | Inr PNone \<Rightarrow> Inl (TypeError NotIterable)
         | Inr PObject \<Rightarrow> Inl (TypeError NotIterable)
         | Inr (PArray a) \<Rightarrow>
             (case nd_iter a of
                Inl e \<Rightarrow> Inl e
              | Inr rows \<Rightarrow> Inr (map (\<lambda>r. Inr (PArray r)) rows))
         | Inr (PDc d') \<Rightarrow>
             Inr (map (\<lambda>r. case r of Inl e \<Rightarrow> Inl e | Inr x \<Rightarrow> Inr (PDc x)) (dc_iter B d'))))
        (dc_active d))
      = Inr (map (\<lambda>(nm, m). map Inr (col nm)) (dc_active d))"
  proof (rule sequence_map_cong_Inr)
    fix p assume p: "p \<in> set (dc_active d)"
    obtain nm m where nm: "p = (nm, m)" by (cases p)
    from p nm have mem: "(nm, m) \<in> set (dc_active d)" by simp
    show "(case p of (nm, m) \<Rightarrow>
        (case dc_getattr d nm of
           Inl e \<Rightarrow> Inl e
         | Inr PNone \<Rightarrow> Inl (TypeError NotIterable)
         | Inr PObject \<Rightarrow> Inl (TypeError NotIterable)
         | Inr (PArray a) \<Rightarrow>
             (case nd_iter a of
                Inl e \<Rightarrow> Inl e
              | Inr rows \<Rightarrow> Inr (map (\<lambda>r. Inr (PArray r)) rows))
         | Inr (PDc d') \<Rightarrow>
             Inr (map (\<lambda>r. case r of Inl e \<Rightarrow> Inl e | Inr x \<Rightarrow> Inr (PDc x)) (dc_iter B d'))))
        = Inr (case p of (nm, m) \<Rightarrow> map Inr (col nm))"
      unfolding nm prod.case by (rule cols[OF mem])
  qed
  let ?cols = "map col (map fst (dc_active d))"
  have cm: "map (\<lambda>(nm, m). map Inr (col nm)) (dc_active d) = map (map Inr) ?cols"
    by (simp add: case_prod_beta)
  have "?cols \<noteq> []" using ne by simp
  moreover have "\<forall>c \<in> set ?cols. length c = n" using len by auto
  ultimately have z: "pyzip (map (map (Inr :: 'a pyval \<Rightarrow> error + 'a pyval)) ?cols)
      = map (\<lambda>i. Inr (map (\<lambda>c. c ! i) ?cols)) [0..<n]"
    by (rule pyzip_Inr)
  have "dc_iter B d =
      map (\<lambda>row. case row of Inl e \<Rightarrow> Inl e
                   | Inr vals \<Rightarrow> replace B d (py_dict (zip (map fst (dc_active d)) vals)))
        (pyzip (map (map Inr) ?cols))"
    by (subst dc_iter.simps) (simp only: tr s1 s2 cm not_True_eq_False if_False sum.case)
  also have "\<dots> = map (\<lambda>i. replace B d (py_dict (zip (map fst (dc_active d))
                                         (map (\<lambda>nm. col nm ! i) (map fst (dc_active d))))))
       [0..<n]"
    unfolding z by (simp add: o_def)
  finally show ?thesis .
qed

lemma stack_unfold:
  assumes arr: "arrays = PDc fd # rest"
    and ga: "\<And>nm m. (nm, m) \<in> set (dc_active fd) \<Longrightarrow>
               sequence (map (\<lambda>arr. py_getattr arr nm) arrays) = Inr (col nm)"
    and st: "\<And>nm m. (nm, m) \<in> set (dc_active fd) \<Longrightarrow>
               (if is_dataclass m
                then (case stack B (col nm) 0 of Inl e \<Rightarrow> Inl e | Inr r \<Rightarrow> Inr (PDc r))
                else nd_stack B (dc_xnp fd) (col nm)) = Inr (val nm)"
  shows "stack B arrays 0 =
     replace B fd (py_dict (zip (map fst (dc_active fd)) (map val (map fst (dc_active fd)))))"
proof -
  have s: "sequence (map (\<lambda>(n, m).
                 case sequence (map (\<lambda>arr. py_getattr arr n) arrays) of
                   Inl e \<Rightarrow> Inl e
                 | Inr vals \<Rightarrow>
                     if is_dataclass m
                     then (case stack B vals 0 of
                             Inl e \<Rightarrow> Inl e
                           | Inr r \<Rightarrow> Inr (PDc r))
                     else nd_stack B (dc_xnp fd) vals)
              (dc_active fd))
       = Inr (map (\<lambda>(n, m). val n) (dc_active fd))"
  proof (rule sequence_map_cong_Inr)
    fix p assume p: "p \<in> set (dc_active fd)"
    obtain nm m where nm: "p = (nm, m)" by (cases p)
    from p nm have mem: "(nm, m) \<in> set (dc_active fd)" by simp
    show "(case p of (n, m) \<Rightarrow>
                 case sequence (map (\<lambda>arr. py_getattr arr n) arrays) of
                   Inl e \<Rightarrow> Inl e
                 | Inr vals \<Rightarrow>
                     if is_dataclass m
                     then (case stack B vals 0 of
                             Inl e \<Rightarrow> Inl e
                           | Inr r \<Rightarrow> Inr (PDc r))
                     else nd_stack B (dc_xnp fd) vals)
          = Inr (case p of (n, m) \<Rightarrow> val n)"
      unfolding nm prod.case ga[OF mem] sum.case st[OF mem] ..
  qed
  have vm: "map (\<lambda>(n, m). val n) (dc_active fd) = map val (map fst (dc_active fd))"
    by (simp add: case_prod_beta)
  note nr = stack_type_check_never_raises[of "\<lambda>x. type_name (type_of x)" "PDc fd # rest"]
  show ?thesis
    by (subst stack.simps)
       (simp only: arr list.case Let_def nr if_False pyval.case s[unfolded arr] sum.case vm
          simp_thms)
qed


lemma eq_key_eq_value:
  "distinct (map fst xs) \<Longrightarrow> (k, v) \<in> set xs \<Longrightarrow> (k, w) \<in> set xs \<Longrightarrow> v = w"
  by (meson eq_key_imp_eq_value)

lemma iter_stack:
  fixes r :: "'a dc"
  shows "valid B r \<Longrightarrow> dc_shape r = Some (n # s) \<Longrightarrow> 0 < n \<Longrightarrow>
     \<exists>rs. dc_iter B r = map Inr rs \<and> length rs = n
        \<and> (\<forall>e \<in> set rs. dc_cls e = dc_cls r \<and> dc_active e = dc_active r
               \<and> dc_xnp e = dc_xnp r \<and> dc_shape e = Some s)
        \<and> stack B (map PDc rs) 0 = Inr r"
proof (induction B r arbitrary: n s rule: valid.induct)
  case (1 B r)
  note v = "1.prems"(1) and sh = "1.prems"(2) and n = "1.prems"(3)
  let ?cls = "dc_cls r"
  let ?F = "cls_fields ?cls"
  let ?act = "dc_active r"
  let ?names = "map fst ?act"
  let ?x = "dc_xnp r"
  note d = valid_D(1)[OF v] and keys = valid_D(2)[OF v] and pi = valid_D(3)[OF v]
    and ni = valid_D(4)[OF v]
  note ac = valid_active[OF v]
  note ne = valid_active_nonempty[OF v sh]
  note dn = valid_active_names(1)[OF v] and sn = valid_active_names(2)[OF v]
    and sd = valid_active_names(3)[OF v]
  from valid_bound[OF v] have fr: "cls_frozen ?cls" by blast
  have norm: "normalized m (n # s) ?x (attr_of r nm)" if "(nm, m) \<in> set ?act" for nm m
    using valid_normalized[OF v that] sh by simp
  define rows where "rows d = (case sequence (dc_iter B d) of Inr rs \<Rightarrow> rs | Inl e \<Rightarrow> [])"
    for d :: "'a dc"
  define col where "col nm = (case attr_of r nm of
        PArray a \<Rightarrow> map (\<lambda>i. PArray (nd_row a i)) [0..<n]
      | PDc d \<Rightarrow> map PDc (rows d)
      | _ \<Rightarrow> [])" for nm
  have colfacts: "length (col nm) = n
      \<and> (case dc_getattr r nm of
           Inl e \<Rightarrow> Inl e
         | Inr PNone \<Rightarrow> Inl (TypeError NotIterable)
         | Inr PObject \<Rightarrow> Inl (TypeError NotIterable)
         | Inr (PArray a) \<Rightarrow>
             (case nd_iter a of
                Inl e \<Rightarrow> Inl e
              | Inr rows \<Rightarrow> Inr (map (\<lambda>r. Inr (PArray r)) rows))
         | Inr (PDc d') \<Rightarrow>
             Inr (map (\<lambda>r. case r of Inl e \<Rightarrow> Inl e | Inr x \<Rightarrow> Inr (PDc x)) (dc_iter B d')))
        = Inr (map Inr (col nm))
      \<and> (\<forall>i<n. normalized m s ?x (col nm ! i))
      \<and> (if is_dataclass m
          then (case stack B (col nm) 0 of Inl e \<Rightarrow> Inl e | Inr r \<Rightarrow> Inr (PDc r))
          else nd_stack B ?x (col nm)) = Inr (attr_of r nm)"
    if mem: "(nm, m) \<in> set ?act" for nm m
  proof (cases "attr_of r nm")
    case (PArray a)
    from norm[OF mem] PArray obtain dt where dt: "dtype m = Prim dt" "nd_dtype a = dt"
      "nd_xnp a = ?x" "nd_shape a = n # (s @ inner_shape m)"
      by (auto simp: normalized_def split: fdtype.splits)
    note g = valid_getattr[OF v mem, unfolded PArray]
    note wf = valid_nested(1)[OF v mem g]
    have c: "col nm = map (\<lambda>i. PArray (nd_row a i)) [0..<n]" by (simp add: col_def PArray)
    have 1: "length (col nm) = n" by (simp add: c)
    have 2: "(case dc_getattr r nm of
           Inl e \<Rightarrow> Inl e
         | Inr PNone \<Rightarrow> Inl (TypeError NotIterable)
         | Inr PObject \<Rightarrow> Inl (TypeError NotIterable)
         | Inr (PArray a) \<Rightarrow>
             (case nd_iter a of
                Inl e \<Rightarrow> Inl e
              | Inr rows \<Rightarrow> Inr (map (\<lambda>r. Inr (PArray r)) rows))
         | Inr (PDc d') \<Rightarrow>
             Inr (map (\<lambda>r. case r of Inl e \<Rightarrow> Inl e | Inr x \<Rightarrow> Inr (PDc x)) (dc_iter B d')))
        = Inr (map Inr (col nm))"
      unfolding g c by (simp add: nd_iter_rows[OF dt(4)] o_def)
    have 3: "\<forall>i<n. normalized m s ?x (col nm ! i)"
      using dt by (simp add: c normalized_def)
    have 4: "(if is_dataclass m
          then (case stack B (col nm) 0 of Inl e \<Rightarrow> Inl e | Inr r \<Rightarrow> Inr (PDc r))
          else nd_stack B ?x (col nm)) = Inr (attr_of r nm)"
      unfolding c using dt(1) nd_stack_rows[OF dt(4) wf n dt(3)]
      by (simp add: is_dataclass_def PArray)
    from 1 2 3 4 show ?thesis by blast
  next
    case (PDc d)
    from norm[OF mem] PDc obtain c where c: "dtype m = Nested c" "cls_name (dc_cls d) = c"
      "dc_active d \<noteq> []" "dc_xnp d = ?x" "dc_shape d = Some (n # (s @ inner_shape m))"
      by (auto simp: normalized_def split: fdtype.splits)
    note g = valid_getattr[OF v mem, unfolded PDc]
    note vd = valid_nested(2)[OF v mem g]
    from "1.IH"[OF mem refl g refl vd c(5) n] obtain rs where
      rs: "dc_iter B d = map Inr rs" "length rs = n"
        "\<forall>e \<in> set rs. dc_cls e = dc_cls d \<and> dc_active e = dc_active d
               \<and> dc_xnp e = dc_xnp d \<and> dc_shape e = Some (s @ inner_shape m)"
        "stack B (map PDc rs) 0 = Inr d"
      by blast
    have rw: "rows d = rs" by (simp add: rows_def rs(1))
    have cc: "col nm = map PDc rs" by (simp add: col_def PDc rw)
    have 1: "length (col nm) = n" by (simp add: cc rs(2))
    have 2: "(case dc_getattr r nm of
           Inl e \<Rightarrow> Inl e
         | Inr PNone \<Rightarrow> Inl (TypeError NotIterable)
         | Inr PObject \<Rightarrow> Inl (TypeError NotIterable)
         | Inr (PArray a) \<Rightarrow>
             (case nd_iter a of
                Inl e \<Rightarrow> Inl e
              | Inr rows \<Rightarrow> Inr (map (\<lambda>r. Inr (PArray r)) rows))
         | Inr (PDc d') \<Rightarrow>
             Inr (map (\<lambda>r. case r of Inl e \<Rightarrow> Inl e | Inr x \<Rightarrow> Inr (PDc x)) (dc_iter B d')))
        = Inr (map Inr (col nm))"
      by (simp add: g cc rs(1) o_def)
    have 3: "\<forall>i<n. normalized m s ?x (col nm ! i)"
    proof (intro allI impI)
      fix i assume "i < n"
      with rs(2) have "rs ! i \<in> set rs" by simp
      with rs(3) c \<open>i < n\<close> rs(2) show "normalized m s ?x (col nm ! i)"
        by (simp add: cc normalized_def)
    qed
    have 4: "(if is_dataclass m
          then (case stack B (col nm) 0 of Inl e \<Rightarrow> Inl e | Inr r \<Rightarrow> Inr (PDc r))
          else nd_stack B ?x (col nm)) = Inr (attr_of r nm)"
      unfolding cc using c(1) rs(4) by (simp add: is_dataclass_def PDc)
    from 1 2 3 4 show ?thesis by blast
  qed (use norm[OF mem] in \<open>auto simp: normalized_def\<close>)
  have in_act: "nm \<in> set ?names \<longleftrightarrow> (nm, m) \<in> set ?act"
    if dm: "(nm, m) \<in> set (array_decls ?cls)" for nm m
  proof
    assume "nm \<in> set ?names"
    then obtain m' where m': "(nm, m') \<in> set ?act" by auto
    with sd have "(nm, m') \<in> set (array_decls ?cls)" by blast
    from eq_key_eq_value[OF array_decls_distinct[OF d] this dm] m'
    show "(nm, m) \<in> set ?act" by simp
  next
    assume "(nm, m) \<in> set ?act"
    then show "nm \<in> set ?names" by (rule image_eqI[rotated, THEN subst[OF set_map[symmetric], of "\<lambda>S. _ \<in> S"]]) simp
  qed
  define rowattrs where "rowattrs i = map (\<lambda>f. (f_name f, if f_name f \<in> set ?names
        then col (f_name f) ! i else attr_of r (f_name f))) ?F" for i
  define elem where "elem i = Dc ?cls (rowattrs i) (Some s) ?x ?act" for i
  have rkeys: "map fst (rowattrs i) = map f_name ?F" for i
    by (simp add: rowattrs_def o_def)
  have look: "map_of (rowattrs i) nm
        = Some (if nm \<in> set ?names then col nm ! i else attr_of r nm)"
    if "nm \<in> f_name ` set ?F" for i nm
    unfolding rowattrs_def
    using map_of_map_key[of f_name "\<lambda>k. if k \<in> set ?names then col k ! i else attr_of r k" ?F nm]
      that by simp
  have decl_name: "nm \<in> f_name ` set ?F" if "(nm, m) \<in> set (array_decls ?cls)" for nm m
  proof -
    from that have "nm \<in> fst ` set (array_decls ?cls)" by (rule image_eqI[rotated]) simp
    with array_decls_names[of ?cls] show ?thesis by blast
  qed
  have missing: "is_value_missing (attr_of r nm)"
    if "(nm, m) \<in> set (array_decls ?cls)" "(nm, m) \<notin> set ?act" for nm m
  proof (rule ccontr)
    assume "\<not> is_value_missing (attr_of r nm)"
    with that(1) have "(nm, m) \<in> set (filter (\<lambda>(n, m). \<not> is_value_missing (attr_of r n))
                                   (array_decls ?cls))" by simp
    with that(2) show False unfolding ac[symmetric] by simp
  qed
  have E1: "post_init B ?cls (rowattrs i) = Inr (elem i)" if i: "i < n" for i
  proof -
    have dA: "distinct (map fst (rowattrs i))" unfolding rkeys by (rule d)
    have vals: "\<forall>(nm, m) \<in> set (array_decls ?cls). \<exists>v. map_of (rowattrs i) nm = Some v
                 \<and> (is_value_missing v \<or> normalized m s ?x v)"
    proof (intro ballI, unfold split_paired_all prod.case)
      fix nm m assume dm: "(nm, m) \<in> set (array_decls ?cls)"
      note lk = look[OF decl_name[OF dm], of i]
      show "\<exists>v. map_of (rowattrs i) nm = Some v \<and> (is_value_missing v \<or> normalized m s ?x v)"
      proof (cases "(nm, m) \<in> set ?act")
        case True
        with in_act[OF dm] have "nm \<in> set ?names" by simp
        with lk have "map_of (rowattrs i) nm = Some (col nm ! i)" by simp
        moreover from colfacts[OF True] i have "normalized m s ?x (col nm ! i)" by blast
        ultimately show ?thesis by blast
      next
        case False
        with in_act[OF dm] have "nm \<notin> set ?names" by simp
        with lk have "map_of (rowattrs i) nm = Some (attr_of r nm)" by simp
        with missing[OF dm False] show ?thesis by blast
      qed
    qed
    from ne obtain nm m where mem: "(nm, m) \<in> set ?act" by (cases ?act) auto
    have one: "\<exists>(nm, m) \<in> set (array_decls ?cls). \<exists>v. map_of (rowattrs i) nm = Some v
                 \<and> \<not> is_value_missing v"
    proof -
      from mem sd have dm: "(nm, m) \<in> set (array_decls ?cls)" by blast
      with in_act[OF dm] mem look[OF decl_name[OF dm], of i]
      have "map_of (rowattrs i) nm = Some (col nm ! i)" by simp
      moreover from colfacts[OF mem] i have "normalized m s ?x (col nm ! i)" by blast
      then have "\<not> is_value_missing (col nm ! i)" by (rule normalized_not_missing)
      ultimately show ?thesis using dm by blast
    qed
    have filt: "filter (\<lambda>(nm, m). \<not> is_value_missing
                    (case map_of (rowattrs i) nm of Some v \<Rightarrow> v | None \<Rightarrow> PNone))
                  (array_decls ?cls) = ?act"
    proof -
      have "filter (\<lambda>(nm, m). \<not> is_value_missing
                    (case map_of (rowattrs i) nm of Some v \<Rightarrow> v | None \<Rightarrow> PNone))
                  (array_decls ?cls)
            = filter (\<lambda>(n, m). \<not> is_value_missing (attr_of r n)) (array_decls ?cls)"
      proof (rule filter_cong[OF refl])
        fix p assume p: "p \<in> set (array_decls ?cls)"
        obtain nm m where nm: "p = (nm, m)" by (cases p)
        from p nm have dm: "(nm, m) \<in> set (array_decls ?cls)" by simp
        note lk = look[OF decl_name[OF dm], of i]
        have "is_value_missing (case map_of (rowattrs i) nm of Some v \<Rightarrow> v | None \<Rightarrow> PNone)
              \<longleftrightarrow> is_value_missing (attr_of r nm)"
        proof (cases "(nm, m) \<in> set ?act")
          case True
          with in_act[OF dm] lk have "map_of (rowattrs i) nm = Some (col nm ! i)" by simp
          moreover from colfacts[OF True] i have "normalized m s ?x (col nm ! i)" by blast
          then have "\<not> is_value_missing (col nm ! i)" by (rule normalized_not_missing)
          moreover from norm[OF True] have "\<not> is_value_missing (attr_of r nm)"
            by (rule normalized_not_missing)
          ultimately show ?thesis by simp
        next
          case False
          with in_act[OF dm] lk have "map_of (rowattrs i) nm = Some (attr_of r nm)" by simp
          then show ?thesis by simp
        qed
        then show "(case p of (nm, m) \<Rightarrow> \<not> is_value_missing
                    (case map_of (rowattrs i) nm of Some v \<Rightarrow> v | None \<Rightarrow> PNone))
              = (case p of (n, m) \<Rightarrow> \<not> is_value_missing (attr_of r n))"
          unfolding nm prod.case by simp
      qed
      then show ?thesis unfolding ac[symmetric] .
    qed
    from post_init_normalized[OF fr dA vals one, of B]
    show ?thesis unfolding filt elem_def .
  qed
  have sn': "set ?names \<subseteq> f_name ` set ?F" using sn by simp
  have act_init: "f_init f" if f: "f \<in> set ?F" "f_name f \<in> set ?names" for f
  proof (rule ccontr)
    assume "\<not> f_init f"
    with ni f(1) have none: "attr_of r (f_name f) = PNone" by blast
    from f(2) obtain m where "(f_name f, m) \<in> set ?act" by auto
    from normalized_not_missing[OF norm[OF this]] none show False
      by (simp add: is_value_missing_def)
  qed
  have sn_init: "set ?names \<subseteq> f_name ` set (filter f_init ?F)"
  proof
    fix nm assume nm: "nm \<in> set ?names"
    with sn' obtain f where f: "f \<in> set ?F" "f_name f = nm" by auto
    with act_init[of f] nm have "f \<in> set (filter f_init ?F)" by simp
    then have "f_name f \<in> f_name ` set (filter f_init ?F)" by (rule imageI)
    then show "nm \<in> f_name ` set (filter f_init ?F)" unfolding f(2) .
  qed
  have E2: "replace B r (py_dict (zip ?names (map (\<lambda>nm. col nm ! i) ?names)))
            = post_init B ?cls (rowattrs i)" for i
    unfolding rowattrs_def by (rule replace_eq[OF d keys dn sn_init ni])
  have tr: "shape_truthy (dc_shape r)" by (simp add: sh shape_truthy_def)
  have "dc_iter B r = map (\<lambda>i. replace B r (py_dict (zip ?names (map (\<lambda>nm. col nm ! i) ?names))))
                        [0..<n]"
  proof (rule dc_iter_unfold[where val = "attr_of r", OF tr ne])
    fix nm m assume mem: "(nm, m) \<in> set ?act"
    show "dc_getattr r nm = Inr (attr_of r nm)" by (rule valid_getattr[OF v mem])
    from colfacts[OF mem] show "length (col nm) = n" by blast
    from colfacts[OF mem] show "(case dc_getattr r nm of
           Inl e \<Rightarrow> Inl e
         | Inr PNone \<Rightarrow> Inl (TypeError NotIterable)
         | Inr PObject \<Rightarrow> Inl (TypeError NotIterable)
         | Inr (PArray a) \<Rightarrow>
             (case nd_iter a of
                Inl e \<Rightarrow> Inl e
              | Inr rows \<Rightarrow> Inr (map (\<lambda>r. Inr (PArray r)) rows))
         | Inr (PDc d') \<Rightarrow>
             Inr (map (\<lambda>r. case r of Inl e \<Rightarrow> Inl e | Inr x \<Rightarrow> Inr (PDc x)) (dc_iter B d')))
        = Inr (map Inr (col nm))" by blast
  qed
  also have "\<dots> = map (\<lambda>i. Inr (elem i)) [0..<n]"
  proof (rule map_cong[OF refl])
    fix i assume "i \<in> set [0..<n]"
    then have "i < n" by simp
    from E1[OF this] show "replace B r (py_dict (zip ?names (map (\<lambda>nm. col nm ! i) ?names)))
                           = Inr (elem i)"
      unfolding E2 .
  qed
  finally have I: "dc_iter B r = map Inr (map elem [0..<n])" by (simp add: o_def)
  have props: "\<forall>e \<in> set (map elem [0..<n]). dc_cls e = dc_cls r \<and> dc_active e = dc_active r
               \<and> dc_xnp e = dc_xnp r \<and> dc_shape e = Some s"
    by (simp add: elem_def)
  have arr: "map PDc (map elem [0..<n]) = PDc (elem 0) # map PDc (map elem [1..<n])"
    using n by (simp add: upt_conv_Cons)
  have sel: "dc_active (elem 0) = ?act" "dc_xnp (elem 0) = ?x" "dc_cls (elem 0) = ?cls"
    "dc_attrs (elem 0) = rowattrs 0"
    by (simp_all add: elem_def)
  have "stack B (map PDc (map elem [0..<n])) 0
        = replace B (elem 0) (py_dict (zip (map fst (dc_active (elem 0)))
                                           (map (attr_of r) (map fst (dc_active (elem 0))))))"
  proof (rule stack_unfold[where col = col, OF arr])
    fix nm m assume "(nm, m) \<in> set (dc_active (elem 0))"
    then have mem: "(nm, m) \<in> set ?act" unfolding sel .
    from mem sd have dm: "(nm, m) \<in> set (array_decls ?cls)" by blast
    from in_act[OF dm] mem have nmn: "nm \<in> set ?names" by simp
    from colfacts[OF mem] have len: "length (col nm) = n" by blast
    have "dc_getattr (elem i) nm = Inr (col nm ! i)" for i
      using look[OF decl_name[OF dm], of i] nmn by (simp add: dc_getattr_def elem_def)
    then have "map (\<lambda>arr. py_getattr arr nm) (map PDc (map elem [0..<n]))
          = map Inr (map (\<lambda>i. col nm ! i) [0..<n])"
      by (simp add: o_def)
    also have "map (\<lambda>i. col nm ! i) [0..<n] = col nm"
      using map_nth[of "col nm"] len by simp
    finally show "sequence (map (\<lambda>arr. py_getattr arr nm) (map PDc (map elem [0..<n])))
                  = Inr (col nm)" by simp
    from colfacts[OF mem] show "(if is_dataclass m
                then (case stack B (col nm) 0 of Inl e \<Rightarrow> Inl e | Inr r \<Rightarrow> Inr (PDc r))
                else nd_stack B (dc_xnp (elem 0)) (col nm)) = Inr (attr_of r nm)"
      unfolding sel by blast
  qed
  also have "\<dots> = post_init B ?cls
             (map (\<lambda>f. (f_name f, if f_name f \<in> set ?names then attr_of r (f_name f)
                                    else attr_of (elem 0) (f_name f))) ?F)"
  proof -
    have ni0: "\<forall>f \<in> set ?F. \<not> f_init f \<longrightarrow>
                 f_has_default f \<and> attr_of (elem 0) (f_name f) = PNone"
    proof (intro ballI impI)
      fix f assume f: "f \<in> set ?F" "\<not> f_init f"
      with act_init[of f] have nn: "f_name f \<notin> set ?names" by blast
      from f(1) have "f_name f \<in> f_name ` set ?F" by (rule imageI)
      from look[OF this, of 0] nn
      have "attr_of (elem 0) (f_name f) = attr_of r (f_name f)"
        by (simp add: attr_of_def elem_def)
      with ni f show "f_has_default f \<and> attr_of (elem 0) (f_name f) = PNone" by simp
    qed
    have e0: "dc_cls (elem 0) = ?cls" "dc_attrs (elem 0) = rowattrs 0" "dc_active (elem 0) = ?act"
      by (simp_all add: elem_def)
    from replace_eq[of "elem 0" ?names B "attr_of r", unfolded e0, OF d rkeys[of 0] dn sn_init ni0]
    show ?thesis unfolding e0 .
  qed
  also have "(map (\<lambda>f. (f_name f, if f_name f \<in> set ?names then attr_of r (f_name f)
                                    else attr_of (elem 0) (f_name f))) ?F) = dc_attrs r"
  proof -
    have "(f_name f, if f_name f \<in> set ?names then attr_of r (f_name f)
                                    else attr_of (elem 0) (f_name f))
          = (f_name f, case map_of (dc_attrs r) (f_name f) of Some v \<Rightarrow> v | None \<Rightarrow> PNone)"
      if "f \<in> set ?F" for f
    proof (cases "f_name f \<in> set ?names")
      case True
      then show ?thesis by (simp add: attr_of_def)
    next
      case False
      from that have "f_name f \<in> f_name ` set ?F" by (rule imageI)
      from look[OF this, of 0] False
      have "attr_of (elem 0) (f_name f) = attr_of r (f_name f)"
        by (simp add: attr_of_def sel)
      with False show ?thesis by (simp add: attr_of_def)
    qed
    then have "(map (\<lambda>f. (f_name f, if f_name f \<in> set ?names then attr_of r (f_name f)
                                    else attr_of (elem 0) (f_name f))) ?F)
          = map (\<lambda>f. (f_name f, case map_of (dc_attrs r) (f_name f) of
                                   Some v \<Rightarrow> v | None \<Rightarrow> PNone)) ?F"
      by (intro map_cong[OF refl])
    also have "\<dots> = map (\<lambda>n. (n, case map_of (dc_attrs r) n of Some v \<Rightarrow> v | None \<Rightarrow> PNone))
                     (map fst (dc_attrs r))"
      unfolding keys by (simp add: o_def)
    also have "\<dots> = dc_attrs r"
      by (rule attrs_as_map) (simp only: keys d)
    finally show ?thesis .
  qed
  finally have S: "stack B (map PDc (map elem [0..<n])) 0 = Inr r"
    using pi by simp
  from I props S show ?case
    by (intro exI[of _ "map elem [0..<n]"]) simp
qed


section \<open>Properties: iterating and stacking\<close>

lemma map_of_map_distinct:
  "distinct (map k xs) \<Longrightarrow> x \<in> set xs \<Longrightarrow> map_of (map (\<lambda>x. (k x, G x)) xs) (k x) = Some (G x)"
  by (induction xs) (auto simp: image_iff)

lemma bind_wf:
  assumes b: "bind_field B n m v = Inr f" and w: "wf_value B v"
  shows "wf_value B (af_value f)"
proof (cases "is_value_missing v")
  case True
  with b w show ?thesis by (auto simp: bind_field_def)
next
  case False
  show ?thesis
  proof (cases "dtype m")
    case (Prim d)
    with b False obtain a where a: "v = PArray a"
      by (cases v) (auto simp: bind_field_def init_array_def is_value_missing_def)
    from b False Prim a have "af_value f = PArray (asarray B (nd_xnp a) d a)"
      by (auto simp: bind_field_def init_array_def split: sum.splits if_splits)
    with w a show ?thesis by (simp add: wf_value_def)
  next
    case (Nested c)
    with b False obtain r where r: "v = PDc r"
      by (cases v) (auto simp: bind_field_def init_dataclass_def is_value_missing_def split: if_splits)
    from b False Nested r have "af_value f = v"
      by (auto simp: bind_field_def init_dataclass_def split: sum.splits if_splits)
    with w show ?thesis by simp
  qed
qed

text \<open>
  The constructor gives instances that are \<open>valid\<close>, when the class has distinct field
  names, every field that \<open>__init__\<close> does not take has a default, and the values given
  for the array fields are arrays with as many elements as their shape says, or instances
  that are \<open>valid\<close>.
\<close>

lemma dc_init_valid:
  fixes r :: "'a dc"
  assumes d: "distinct (map f_name (cls_fields cls))"
    and ai: "\<forall>f \<in> set (cls_fields cls). f_init f \<or> f_has_default f"
    and r: "dc_init B cls kw = Inr r"
    and wf: "\<forall>(n, m) \<in> set (array_decls cls). \<forall>v. map_of kw n = Some v \<longrightarrow> wf_value B v"
  shows "valid B r"
proof -
  let ?A = "init_attrs cls kw"
  let ?G = "\<lambda>f. if f_init f then (case map_of kw (f_name f) of Some v \<Rightarrow> v | None \<Rightarrow> PNone)
                 else PNone"
  note pi0 = dc_init_Inr_D[OF r]
  note cls = post_init_cls[OF pi0]
  have keys: "map fst (dc_attrs r) = map f_name (cls_fields cls)"
    using post_init_keys[OF pi0] by (simp add: init_attrs_keys[OF ai])
  note idem = post_init_idem[OF d pi0]
  from post_init_Inr_D[OF pi0] obtain fs :: "'a array_field list" where
    fs: "all_array_fields B cls ?A = Inr fs"
    and wb: "dc_attrs r = write_back fs ?A"
    and ac: "dc_active r = map (\<lambda>f. (af_name f, af_meta f)) (filter af_active fs)"
    by blast
  note dn = bound_names_distinct[OF d fs]
  have lookA: "map_of ?A (f_name f) = Some (?G f)" if "f \<in> set (cls_fields cls)" for f
    unfolding init_attrs_map[OF ai] by (rule map_of_map_distinct[OF d that])
  have src: "\<exists>v. map_of ?A (af_name f) = Some v \<and> bind_field B (af_name f) (af_meta f) v = Inr f
                \<and> (af_name f, af_meta f) \<in> set (array_decls cls)"
    if f: "f \<in> set fs" for f
  proof -
    from f obtain i where i: "i < length fs" "fs ! i = f"
      unfolding in_set_conv_nth by blast
    from all_array_fields_Inr_D(2)[OF fs i(1)] i(2) obtain v where
      v: "map_of ?A (fst (array_decls cls ! i)) = Some v"
         "bind_field B (fst (array_decls cls ! i)) (snd (array_decls cls ! i)) v = Inr f"
      by auto
    from bind_Inr_D[OF v(2)] have nm: "fst (array_decls cls ! i) = af_name f"
      "snd (array_decls cls ! i) = af_meta f" by simp_all
    from i(1) all_array_fields_Inr_D(1)[OF fs] have "array_decls cls ! i \<in> set (array_decls cls)"
      by simp
    with nm have "(af_name f, af_meta f) \<in> set (array_decls cls)" by (metis prod.collapse)
    with v nm show ?thesis by auto
  qed
  have nested: "case dc_getattr r n of
             Inr (PArray a) \<Rightarrow> length (nd_data a) = prod_list (nd_shape a)
           | Inr (PDc d) \<Rightarrow> valid B d
           | _ \<Rightarrow> True" if mem: "(n, m) \<in> set (dc_active r)" for n m
  proof -
    from mem obtain f where f: "f \<in> set fs" "af_name f = n" "af_meta f = m"
      unfolding ac by auto
    from src[OF f(1)] f(2,3) obtain v where
      v: "map_of ?A n = Some v" "bind_field B n m v = Inr f"
      and dm: "(n, m) \<in> set (array_decls cls)" by auto
    from dm have "n \<in> fst ` set (array_decls cls)" by (rule image_eqI[rotated]) simp
    with array_decls_names[of cls] obtain g where g: "g \<in> set (cls_fields cls)" "f_name g = n"
      by auto
    from lookA[OF g(1)] g(2) v(1) have veq: "v = ?G g" by simp
    have "wf_value B v"
    proof (cases "f_init g \<and> map_of kw n \<noteq> None")
      case True
      then obtain u where "map_of kw n = Some u" by auto
      with wf dm veq True g(2) show ?thesis by auto
    next
      case False
      with veq g(2) have "v = PNone" by (auto split: option.splits)
      then show ?thesis by (simp add: wf_value_def)
    qed
    from bind_wf[OF v(2) this] have w: "wf_value B (af_value f)" .
    from write_back_bound[OF dn f(1), of ?A v] v(1) f(2)
    have "map_of (dc_attrs r) n = Some (af_value f)" unfolding wb by simp
    then have "dc_getattr r n = Inr (af_value f)" by (simp add: dc_getattr_def)
    with w show ?thesis by (cases "af_value f") (simp_all add: wf_value_def)
  qed
  have dflt: "f_has_default g \<and> attr_of r (f_name g) = PNone"
    if g: "g \<in> set (cls_fields cls)" "\<not> f_init g" for g
  proof -
    from lookA[OF g(1)] g(2) have a0: "map_of ?A (f_name g) = Some PNone" by simp
    have "attr_of r (f_name g) = PNone"
    proof (cases "find (\<lambda>f. af_name f = f_name g) fs")
      case None
      with a0 show ?thesis by (simp add: attr_of_def wb write_back_map_of)
    next
      case (Some f)
      then have f: "f \<in> set fs" "af_name f = f_name g"
        by (auto simp: find_Some_iff)
      from src[OF f(1)] f(2) a0 have "bind_field B (af_name f) (af_meta f) PNone = Inr f"
        by auto
      from bind_Inr_D[OF this] have "af_value f = PNone"
        by (simp add: is_value_missing_def)
      with a0 Some show ?thesis by (simp add: attr_of_def wb write_back_map_of)
    qed
    with ai g show ?thesis by blast
  qed
  show ?thesis
    by (subst valid.simps) (use d keys idem nested dflt in \<open>auto simp: cls\<close>)
qed

lemma square0_constructed:
  "dc_init ex_engine Square
     [(''pos'', PArray (NDArray NP float32 [0, 2] [])),
      (''scale'', PArray (NDArray NP float32 [0] []))] = Inr square0"
  by code_simp

lemma Square_init: "\<forall>f \<in> set (cls_fields Square). f_init f \<or> f_has_default f"
  by (simp add: Square_def)

lemma square3_valid: "valid ex_engine square3"
  by (rule dc_init_valid[OF Square_distinct Square_init square3_constructed])
     (simp add: Square_decls wf_value_def pos3_def scale3_def)

lemma square0_valid: "valid ex_engine square0"
  by (rule dc_init_valid[OF Square_distinct Square_init square0_constructed])
     (simp add: Square_decls wf_value_def)

lemma Scene_distinct: "distinct (map f_name (cls_fields Scene))"
  by (simp add: Scene_def)

lemma Scene_init: "\<forall>f \<in> set (cls_fields Scene). f_init f \<or> f_has_default f"
  by (simp add: Scene_def)

lemma scene3_constructed:
  "dc_init ex_engine Scene [(''square'', PDc square3), (''weight'', PArray scale3)] = Inr scene3"
  by code_simp

lemma scene3_valid: "valid ex_engine scene3"
  by (rule dc_init_valid[OF Scene_distinct Scene_init scene3_constructed])
     (simp add: array_decls_def Scene_def wf_value_def square3_valid scale3_def)




section \<open>Properties: the \<open>object()\<close> sentinel\<close>

lemma bound_source:
  assumes fs: "all_array_fields B cls attrs = Inr fs" and f: "f \<in> set fs"
  shows "\<exists>v. map_of attrs (af_name f) = Some v
           \<and> bind_field B (af_name f) (af_meta f) v = Inr f
           \<and> (af_name f, af_meta f) \<in> set (array_decls cls)"
proof -
  from f obtain i where i: "i < length fs" "fs ! i = f"
    unfolding in_set_conv_nth by blast
  from all_array_fields_Inr_D(2)[OF fs i(1)] i(2) obtain v where
    v: "map_of attrs (fst (array_decls cls ! i)) = Some v"
       "bind_field B (fst (array_decls cls ! i)) (snd (array_decls cls ! i)) v = Inr f"
    by auto
  from bind_Inr_D[OF v(2)] have nm: "fst (array_decls cls ! i) = af_name f"
    "snd (array_decls cls ! i) = af_meta f" by simp_all
  from i(1) all_array_fields_Inr_D(1)[OF fs] have "array_decls cls ! i \<in> set (array_decls cls)"
    by simp
  with nm have "(af_name f, af_meta f) \<in> set (array_decls cls)" by (metis prod.collapse)
  with v nm show ?thesis by auto
qed

lemma object_field_excluded:
  fixes r :: "'a dc"
  assumes d: "distinct (map f_name (cls_fields cls))"
    and nm: "(n, m) \<in> set (array_decls cls)"
    and v: "map_of attrs n = Some PObject"
    and pi: "post_init B cls attrs = Inr r"
  shows "n \<notin> fst ` set (dc_active r) \<and> dc_getattr r n = Inr PObject"
proof -
  from post_init_Inr_D[OF pi] obtain fs :: "'a array_field list" where
    fs: "all_array_fields B cls attrs = Inr fs"
    and wb: "dc_attrs r = write_back fs attrs"
    and ac: "dc_active r = map (\<lambda>f. (af_name f, af_meta f)) (filter af_active fs)"
    by blast
  note dn = bound_names_distinct[OF d fs]
  from bound_lookup[OF d fs nm] obtain f where f: "f \<in> set fs" "af_name f = n" "af_meta f = m"
    and look: "map_of (write_back fs attrs) n = Some (af_value f)" by blast
  from bound_source[OF fs f(1)] f(2,3) v have "bind_field B n m PObject = Inr f" by auto
  from bind_Inr_D[OF this] have val: "af_value f = PObject"
    by (simp add: is_value_missing_def)
  then have nact: "\<not> af_active f" by (simp add: is_value_missing_def)
  have "n \<notin> fst ` set (dc_active r)"
  proof
    assume "n \<in> fst ` set (dc_active r)"
    then obtain f' where f': "f' \<in> set fs" "af_active f'" "af_name f' = n"
      unfolding ac by auto
    from dn have "inj_on af_name (set fs)" by (simp add: distinct_map)
    from inj_onD[OF this _ f'(1) f(1)] f'(3) f(2) have "f' = f" by simp
    with f'(2) nact show False by simp
  qed
  moreover from look val have "dc_getattr r n = Inr PObject"
    by (simp add: dc_getattr_def wb)
  ultimately show ?thesis by blast
qed

lemma object_fields_construct:
  assumes fr: "cls_frozen cls" and d: "distinct (map fst attrs)"
    and vals: "\<forall>(k, m') \<in> set (array_decls cls). \<exists>v. map_of attrs k = Some v
                 \<and> (v = PObject \<or> normalized m' h x v)"
    and one: "\<exists>(k, m') \<in> set (array_decls cls). \<exists>v. map_of attrs k = Some v
                 \<and> normalized m' h x v"
  shows "post_init B cls attrs =
     Inr (Dc cls attrs (Some h) x
            (filter (\<lambda>(k, m'). map_of attrs k \<noteq> Some PObject) (array_decls cls)))"
proof -
  have mo: "is_value_missing (PObject :: 'a pyval)" by (simp add: is_value_missing_def)
  have vals': "\<forall>(k, m') \<in> set (array_decls cls). \<exists>v. map_of attrs k = Some v
                 \<and> (is_value_missing v \<or> normalized m' h x v)"
    using vals mo by fastforce
  have one': "\<exists>(k, m') \<in> set (array_decls cls). \<exists>v. map_of attrs k = Some v
                 \<and> \<not> is_value_missing v"
    using one normalized_not_missing by fastforce
  have "filter (\<lambda>(k, m'). \<not> is_value_missing
                    (case map_of attrs k of Some v \<Rightarrow> v | None \<Rightarrow> PNone)) (array_decls cls)
        = filter (\<lambda>(k, m'). map_of attrs k \<noteq> Some PObject) (array_decls cls)"
  proof (rule filter_cong[OF refl])
    fix p assume p: "p \<in> set (array_decls cls)"
    obtain k m' where km: "p = (k, m')" by (cases p)
    from vals p km obtain v where v: "map_of attrs k = Some v" "v = PObject \<or> normalized m' h x v"
      by auto
    from v(2) have "\<not> is_value_missing v \<longleftrightarrow> v \<noteq> PObject"
      using mo normalized_not_missing normalized_not_object by blast
    with v(1) show "(case p of (k, m') \<Rightarrow> \<not> is_value_missing
                    (case map_of attrs k of Some v \<Rightarrow> v | None \<Rightarrow> PNone))
          = (case p of (k, m') \<Rightarrow> map_of attrs k \<noteq> Some PObject)"
      unfolding km by simp
  qed
  with post_init_normalized[OF fr d vals' one', of B] show ?thesis by simp
qed

text \<open>
  C10. A bare \<open>object()\<close> is a missing value. Its field is bound without normalization
  or validation. Construction has the outcome it has with \<open>None\<close> in its place, the same
  error or the same batch shape, engine and active fields. After a construction that
  succeeds, a field holding \<open>object()\<close> is not among the active fields and still holds
  \<open>object()\<close>. When the other array fields hold values of one engine and one batch shape,
  construction succeeds with that engine and that batch shape, the active fields being
  those that do not hold \<open>object()\<close>; when every array field holds \<open>object()\<close>, it
  succeeds with no batch shape, the engine \<open>np\<close> and no active field.
\<close>

theorem object_sentinel_is_missing:
  "is_value_missing (PObject :: 'a pyval)
   \<and> bind_field B n m (PObject :: 'a pyval)
       = Inr \<lparr>af_name = n, af_meta = m, af_value = PObject, af_xnp = None\<rparr>
   \<and> map_sum id (\<lambda>r. (dc_shape r, dc_xnp r, dc_active r)) (post_init B cls attrs)
       = map_sum id (\<lambda>r. (dc_shape r, dc_xnp r, dc_active r))
           (post_init B cls (map (\<lambda>(n, v). (n, object_as_none v)) attrs))
   \<and> (\<forall>r. distinct (map f_name (cls_fields cls)) \<and> (n, m) \<in> set (array_decls cls)
          \<and> map_of attrs n = Some PObject \<and> post_init B cls attrs = Inr r
          \<longrightarrow> n \<notin> fst ` set (dc_active r) \<and> dc_getattr r n = Inr PObject)
   \<and> (cls_frozen cls \<and> distinct (map fst attrs)
        \<and> (\<forall>(k, m') \<in> set (array_decls cls). \<exists>v. map_of attrs k = Some v
               \<and> (v = PObject \<or> normalized m' h x v))
        \<and> (\<exists>(k, m') \<in> set (array_decls cls). \<exists>v. map_of attrs k = Some v
               \<and> normalized m' h x v)
        \<longrightarrow> post_init B cls attrs =
              Inr (Dc cls attrs (Some h) x
                     (filter (\<lambda>(k, m'). map_of attrs k \<noteq> Some PObject) (array_decls cls))))
   \<and> (cls_frozen cls \<and> distinct (map fst attrs) \<and> array_decls cls \<noteq> []
        \<and> (\<forall>(k, m') \<in> set (array_decls cls). map_of attrs k = Some PObject)
        \<longrightarrow> post_init B cls attrs = Inr (Dc cls attrs None NP []))"
proof (intro conjI)
  show m: "is_value_missing (PObject :: 'a pyval)" by (simp add: is_value_missing_def)
  show "bind_field B n m (PObject :: 'a pyval)
       = Inr \<lparr>af_name = n, af_meta = m, af_value = PObject, af_xnp = None\<rparr>"
    by (rule bind_missing[OF m])
  let ?attrs' = "map (\<lambda>(n, v). (n, object_as_none v)) attrs"
  let ?upd = "\<lambda>f :: 'a array_field. f\<lparr>af_value := object_as_none (af_value f)\<rparr>"
  let ?p = "\<lambda>r :: 'a dc. (dc_shape r, dc_xnp r, dc_active r)"
  show "map_sum id ?p (post_init B cls attrs) = map_sum id ?p (post_init B cls ?attrs')"
  proof (cases "all_array_fields B cls attrs")
    case (Inl e)
    then have "all_array_fields B cls ?attrs' = Inl e"
      by (simp add: all_array_fields_object_as_none)
    with Inl show ?thesis by (simp add: post_init_factored)
  next
    case (Inr fs)
    then have fs': "all_array_fields B cls ?attrs' = Inr (map ?upd fs)"
      by (simp add: all_array_fields_object_as_none)
    note flt = filter_active_object_as_none[of fs]
    show ?thesis
      by (simp add: post_init_factored Inr fs' flt split: sum.splits prod.splits)
  qed
  show "\<forall>r. distinct (map f_name (cls_fields cls)) \<and> (n, m) \<in> set (array_decls cls)
          \<and> map_of attrs n = Some PObject \<and> post_init B cls attrs = Inr r
          \<longrightarrow> n \<notin> fst ` set (dc_active r) \<and> dc_getattr r n = Inr PObject"
    using object_field_excluded[of cls n m attrs B] by blast
  show "cls_frozen cls \<and> distinct (map fst attrs)
        \<and> (\<forall>(k, m') \<in> set (array_decls cls). \<exists>v. map_of attrs k = Some v
               \<and> (v = PObject \<or> normalized m' h x v))
        \<and> (\<exists>(k, m') \<in> set (array_decls cls). \<exists>v. map_of attrs k = Some v
               \<and> normalized m' h x v)
        \<longrightarrow> post_init B cls attrs =
              Inr (Dc cls attrs (Some h) x
                     (filter (\<lambda>(k, m'). map_of attrs k \<noteq> Some PObject) (array_decls cls)))"
    using object_fields_construct[of cls attrs h x B] by blast
  show "cls_frozen cls \<and> distinct (map fst attrs) \<and> array_decls cls \<noteq> []
        \<and> (\<forall>(k, m') \<in> set (array_decls cls). map_of attrs k = Some PObject)
        \<longrightarrow> post_init B cls attrs = Inr (Dc cls attrs None NP [])"
  proof
    assume a: "cls_frozen cls \<and> distinct (map fst attrs) \<and> array_decls cls \<noteq> []
        \<and> (\<forall>(k, m') \<in> set (array_decls cls). map_of attrs k = Some PObject)"
    then have mis: "\<forall>(k, m') \<in> set (array_decls cls). \<exists>v. map_of attrs k = Some v
                      \<and> is_value_missing v"
      using m by fastforce
    from a post_init_none_attrs[OF _ _ _ mis, of B]
    show "post_init B cls attrs = Inr (Dc cls attrs None NP [])" by blast
  qed
qed

theorem object_sentinel_is_missing_witness:
  "post_init ex_engine Square [(''pos'', PObject), (''scale'', PArray scale3)]
     = Inr (Dc Square [(''pos'', PObject), (''scale'', PArray scale3)] (Some [3]) NP
              [(''scale'', scale_meta)])
   \<and> ''pos'' \<notin> fst ` set (dc_active
         (Dc Square [(''pos'', PObject), (''scale'', PArray scale3)] (Some [3]) NP
              [(''scale'', scale_meta)] :: int dc))
   \<and> dc_getattr (Dc Square [(''pos'', PObject), (''scale'', PArray scale3)] (Some [3]) NP
              [(''scale'', scale_meta)] :: int dc) ''pos'' = Inr PObject
   \<and> post_init ex_engine Square [(''pos'', PObject), (''scale'', PObject)]
     = Inr (Dc Square [(''pos'', PObject), (''scale'', PObject)] None NP [])"
proof -
  let ?A = "[(''pos'', PObject), (''scale'', PArray scale3)] :: (string \<times> int pyval) list"
  let ?R = "Dc Square ?A (Some [3]) NP [(''scale'', scale_meta)]"
  let ?A2 = "[(''pos'', PObject), (''scale'', PObject)] :: (string \<times> int pyval) list"
  note t = object_sentinel_is_missing[of ex_engine "''pos''" pos_meta Square ?A "[3]" NP]
  note t2 = object_sentinel_is_missing[of ex_engine "''pos''" pos_meta Square ?A2 "[3]" NP]
  have fr: "cls_frozen Square" by (simp add: Square_def)
  have ns: "normalized scale_meta [3] NP (PArray scale3 :: int pyval)"
    by (simp add: normalized_def scale_meta_def scale3_def float32_def)
  have p: "post_init ex_engine Square ?A = Inr ?R"
    using t fr ns by (simp add: Square_decls)
  have e: "''pos'' \<notin> fst ` set (dc_active ?R) \<and> dc_getattr ?R ''pos'' = Inr PObject"
    using t p Square_distinct by (simp add: Square_decls)
  have p2: "post_init ex_engine Square ?A2 = Inr (Dc Square ?A2 None NP [])"
    using t2 fr by (simp add: Square_decls)
  from p e p2 show ?thesis by blast
qed

end
